theory Spec2Isabelle
  imports Main "HOL-Library.Word" "HOL-Library.Multiset"
begin

section \<open>The buffered image layer of ebiten (package \<open>buffered\<close>)\<close>

text \<open>
  The package keeps, for every image, a pending fill or a pending pixel buffer and pushes
  it to the underlying \<open>*mipmap.Mipmap\<close> only when it has to. The embedding follows
  the Go source function by function. Mutation of an \<open>*Image\<close> is explicit state
  passing over a heap of images indexed by pointer; every call of the resource is
  appended to a trace; a Go \<open>panic\<close> and a returned \<open>error\<close> are values of
  type \<open>failure\<close>. \<open>EndFrame\<close>, \<open>Dump\<close>, \<open>Convert2RGBA\<close> and the
  functions of \<open>Shader\<close> touch no pending state and are left out.
\<close>

subsection \<open>Go values\<close>

type_synonym byte = "8 word"

text \<open>\<open>color.RGBA\<close>; the fields \<open>R\<close>, \<open>G\<close>, \<open>B\<close>, \<open>A\<close> carry a prefix.\<close>

record RGBA =
  cR :: byte
  cG :: byte
  cB :: byte
  cA :: byte

text \<open>A fatal \<open>panic\<close>, or an \<open>error\<close> value handed back to the caller.\<close>

datatype failure = Panic string | Err string

text \<open>
  Go's \<open>int\<close> is a 64-bit two's-complement integer. \<open>int64\<close> is the value an
  exact result wraps to. Wrapping is a ring homomorphism, so wrapping an exact
  polynomial once equals wrapping after each \<open>+\<close> and \<open>*\<close>.
\<close>

definition int64 :: "int \<Rightarrow> int" where
  "int64 n = (n + 2 ^ 63) mod 2 ^ 64 - 2 ^ 63"

text \<open>
  \<open>maxAlloc\<close> of the Go runtime (\<open>runtime/malloc.go\<close>): the largest size of
  one allocation, \<open>1 << heapAddrBits\<close>. The platform is the one of the 64-bit
  \<open>int\<close> above with heap addresses of 48 bits (linux/amd64 and most 64-bit targets).
\<close>

definition heapAddrBits :: nat where
  "heapAddrBits = 48"

definition maxAlloc :: int where
  "maxAlloc = 2 ^ heapAddrBits"

text \<open>
  \<open>make([]byte, n)\<close>: \<open>makeslice\<close> panics when the length is negative or
  larger than \<open>maxAlloc\<close>; otherwise the result is \<open>n\<close> zero bytes. Running
  out of memory below that limit ends the process without a panic and is not a value of
  the model.
\<close>

definition make_bytes :: "int \<Rightarrow> failure + byte list" where
  "make_bytes n =
     (if n < 0 \<or> maxAlloc < n then Inl (Panic ''makeslice: len out of range'')
      else Inr (replicate (nat n) 0))"

text \<open>
  A slice is modelled by the list of its elements, so its capacity is its length: that is
  what \<open>make\<close> returns, and a buffer that a caller passes with spare capacity is
  not represented. The slice expression \<open>s[a:b]\<close> on such a slice, as
  (offset, length), and \<open>s[a:]\<close>. Out-of-range bounds panic.
\<close>

definition slice_bounds :: "'a list \<Rightarrow> int \<Rightarrow> int \<Rightarrow> failure + (nat \<times> nat)" where
  "slice_bounds s a b =
     (if 0 \<le> a \<and> a \<le> b \<and> b \<le> int (length s) then Inr (nat a, nat (b - a))
      else Inl (Panic ''slice bounds out of range''))"

definition slice_from :: "'a list \<Rightarrow> int \<Rightarrow> failure + (nat \<times> nat)" where
  "slice_from s a = slice_bounds s a (int (length s))"

text \<open>
  \<open>copy(dst, src)\<close> where \<open>dst\<close> is the window (offset, length) of the array
  \<open>d\<close>: the first \<open>min (len dst) (len src)\<close> elements of \<open>src\<close> are written
  through to \<open>d\<close>.
\<close>

definition copy_to :: "'a list \<Rightarrow> nat \<times> nat \<Rightarrow> 'a list \<Rightarrow> 'a list" where
  "copy_to d win src =
     (let n = min (snd win) (length src)
      in take (fst win) d @ take n src @ drop (fst win + n) d)"

subsection \<open>Rectangles of the standard package \<open>image\<close>\<close>

text \<open>
  \<open>image.Rectangle\<close> with its \<open>Min\<close> and \<open>Max\<close> points flattened.
  \<open>image.Rect\<close> swaps the coordinates into canonical order; an empty rectangle is
  \<open>In\<close> every rectangle.
\<close>

record Rectangle =
  MinX :: int
  MinY :: int
  MaxX :: int
  MaxY :: int

definition Rect :: "int \<Rightarrow> int \<Rightarrow> int \<Rightarrow> int \<Rightarrow> Rectangle" where
  "Rect x0 y0 x1 y1 =
     \<lparr>MinX = (if x0 > x1 then x1 else x0), MinY = (if y0 > y1 then y1 else y0),
      MaxX = (if x0 > x1 then x0 else x1), MaxY = (if y0 > y1 then y0 else y1)\<rparr>"

definition Empty :: "Rectangle \<Rightarrow> bool" where
  "Empty r = (MinX r \<ge> MaxX r \<or> MinY r \<ge> MaxY r)"

definition In :: "Rectangle \<Rightarrow> Rectangle \<Rightarrow> bool" where
  "In r s =
     (if Empty r then True
      else MinX s \<le> MinX r \<and> MaxX r \<le> MaxX s \<and> MinY s \<le> MinY r \<and> MaxY r \<le> MaxY s)"

subsection \<open>Images, the resource and the world\<close>

text \<open>
  An \<open>*Image\<close> is an address; \<open>img\<close> is the \<open>*mipmap.Mipmap\<close> handle
  (\<open>None\<close> is \<open>nil\<close>), \<open>pixels\<close> the byte slice (\<open>None\<close> is \<open>nil\<close>).
\<close>

type_synonym ref = nat
type_synonym handle = "nat option"

record Image =
  img :: handle
  width :: int
  height :: int
  hasFill :: bool
  fillColor :: RGBA
  pixels :: "byte list option"
  needsToResolvePixels :: bool

text \<open>
  Arguments that a draw call only forwards to the resource (bounds, \<open>GeoM\<close>,
  \<open>ColorM\<close>, mode, filter, vertices, indices, address) are one opaque token. A
  uniform is an image or any other value. \<open>Shader\<close> wraps a \<open>*mipmap.Shader\<close>.
\<close>

type_synonym opaque = nat

datatype uniform = UImage ref | UValue opaque

datatype mm_uniform = MImage handle | MValue opaque

record Shader =
  shader :: handle

text \<open>
  Package \<open>mipmap\<close> is a collaborator outside these sources. Each call of it is
  recorded in order. What \<open>(*Mipmap).Pixels\<close> and \<open>mipmap.BeginFrame\<close> return
  is a parameter: any function of the calls issued so far (the current one last).
\<close>

datatype mm_call =
    MM_New nat int int bool
  | MM_NewScreenFramebufferMipmap nat int int
  | MM_Fill handle RGBA
  | MM_ReplacePixels handle "byte list option"
  | MM_Pixels handle int int int int
  | MM_DrawImage handle handle opaque
  | MM_DrawTriangles handle handle opaque handle "mm_uniform list"
  | MM_MarkDisposed handle
  | MM_BeginFrame

text \<open>
  A captured call of the deferral queue: the closure handed to
  \<open>tryAddDelayedCommand\<close> with the arguments it captured, as data.
\<close>

datatype command =
    C_initialize ref int int bool
  | C_initializeAsScreenFramebuffer ref int int
  | C_MarkDisposed ref
  | C_Fill ref RGBA
  | C_ReplacePixels ref "byte list" int int int int
  | C_CopyPixels ref ref int int int int
  | C_drawImage ref "ref option" opaque
  | C_DrawTriangles ref "ref option" opaque "Shader option" "uniform list"

record world =
  heap :: "ref \<Rightarrow> Image"
  gpu :: "mm_call list"
  mmPixels :: "mm_call list \<Rightarrow> string + byte list"
  mmBeginFrame :: "mm_call list \<Rightarrow> string option"
  needsToDelayCommands :: bool
  delayedCommands :: "command list"

text \<open>The zero value \<open>Image{}\<close> and the state at process start.\<close>

definition zeroImage :: Image where
  "zeroImage =
     \<lparr>img = None, width = 0, height = 0, hasFill = False,
      fillColor = \<lparr>cR = 0, cG = 0, cB = 0, cA = 0\<rparr>, pixels = None,
      needsToResolvePixels = False\<rparr>"

definition start :: "(mm_call list \<Rightarrow> string + byte list) \<Rightarrow> (mm_call list \<Rightarrow> string option) \<Rightarrow> world" where
  "start rd bf =
     \<lparr>heap = (\<lambda>_. zeroImage), gpu = [], mmPixels = rd, mmBeginFrame = bf,
      needsToDelayCommands = True, delayedCommands = []\<rparr>"

definition setImage :: "world \<Rightarrow> ref \<Rightarrow> Image \<Rightarrow> world" where
  "setImage s r i = s\<lparr>heap := (heap s)(r := i)\<rparr>"

definition call :: "world \<Rightarrow> mm_call \<Rightarrow> world" where
  "call s c = s\<lparr>gpu := gpu s @ [c]\<rparr>"

subsection \<open>The deferral queue\<close>

text \<open>
  Modelled from the spec: \<open>tryAddDelayedCommand\<close> is called by the source but
  defined in a file that is not part of it. Spec 4.1: while deferral is active
  \<open>tryDefer\<close> appends the operation with its eagerly copied snapshot and returns
  true (the caller must not execute); otherwise it returns false (the caller executes).
\<close>

definition tryAddDelayedCommand :: "world \<Rightarrow> command \<Rightarrow> bool \<times> world" where
  "tryAddDelayedCommand s c =
     (if needsToDelayCommands s then (True, s\<lparr>delayedCommands := delayedCommands s @ [c]\<rparr>)
      else (False, s))"

text \<open>
  Modelled from the spec: \<open>checkDelayedCommandsFlushed\<close> is called by the source
  but defined in a file that is not part of it. Spec 4.1 and 7: reading an image while
  the deferral queue is still unflushed is a fatal usage error.
\<close>

definition checkDelayedCommandsFlushed :: "world \<Rightarrow> string \<Rightarrow> failure option" where
  "checkDelayedCommandsFlushed s fname =
     (if needsToDelayCommands s
      then Some (Panic (''buffered: the command queue is not flushed yet at '' @ fname))
      else None)"

subsection \<open>Pending state\<close>

text \<open>
  \<open>mipmap.New\<close> returns a fresh pointer: the handle is the number of resource calls
  issued before it, which no earlier handle can equal.
\<close>

definition initialize :: "world \<Rightarrow> ref \<Rightarrow> int \<Rightarrow> int \<Rightarrow> bool \<Rightarrow> world" where
  "initialize s i w h volatile =
     (case tryAddDelayedCommand s (C_initialize i w h volatile) of
        (True, s') \<Rightarrow> s'
      | (False, _) \<Rightarrow>
          (let m = length (gpu s);
               s1 = call s (MM_New m w h volatile)
           in setImage s1 i ((heap s1 i)\<lparr>img := Some m, width := w, height := h\<rparr>)))"

definition initializeAsScreenFramebuffer :: "world \<Rightarrow> ref \<Rightarrow> int \<Rightarrow> int \<Rightarrow> world" where
  "initializeAsScreenFramebuffer s i w h =
     (case tryAddDelayedCommand s (C_initializeAsScreenFramebuffer i w h) of
        (True, s') \<Rightarrow> s'
      | (False, _) \<Rightarrow>
          (let m = length (gpu s);
               s1 = call s (MM_NewScreenFramebufferMipmap m w h)
           in setImage s1 i ((heap s1 i)\<lparr>img := Some m, width := w, height := h\<rparr>)))"

definition invalidatePendingPixels :: "world \<Rightarrow> ref \<Rightarrow> world" where
  "invalidatePendingPixels s i =
     setImage s i ((heap s i)\<lparr>pixels := None, needsToResolvePixels := False, hasFill := False\<rparr>)"

definition resolvePendingFill :: "world \<Rightarrow> ref \<Rightarrow> world" where
  "resolvePendingFill s i =
     (if \<not> hasFill (heap s i) then s
      else (let s1 = call s (MM_Fill (img (heap s i)) (fillColor (heap s i)))
            in setImage s1 i ((heap s1 i)\<lparr>hasFill := False\<rparr>)))"

definition resolvePendingPixels :: "world \<Rightarrow> ref \<Rightarrow> bool \<Rightarrow> failure option \<times> world" where
  "resolvePendingPixels s i keepPendingPixels =
     (if needsToResolvePixels (heap s i) \<and> hasFill (heap s i)
      then (Some (Panic ''buffered: needsToResolvePixels and hasFill must not be true at the same time''), s)
      else
        (let s3 =
           (if needsToResolvePixels (heap s i)
            then (let s1 = call s (MM_ReplacePixels (img (heap s i)) (pixels (heap s i)));
                      s2 = (if \<not> keepPendingPixels
                            then setImage s1 i ((heap s1 i)\<lparr>pixels := None\<rparr>) else s1)
                  in setImage s2 i ((heap s2 i)\<lparr>needsToResolvePixels := False\<rparr>))
            else s)
         in (None, resolvePendingFill s3 i)))"

definition MarkDisposed :: "world \<Rightarrow> ref \<Rightarrow> world" where
  "MarkDisposed s i =
     (case tryAddDelayedCommand s (C_MarkDisposed i) of
        (True, s') \<Rightarrow> s'
      | (False, _) \<Rightarrow>
          (let s1 = invalidatePendingPixels s i
           in call s1 (MM_MarkDisposed (img (heap s1 i)))))"

subsection \<open>Reading pixels\<close>

text \<open>
  The loop of \<open>Pixels\<close> that writes the fill colour into every four bytes of
  \<open>pix\<close>; each index it writes is below \<open>len(pix)\<close>.
\<close>

function Pixels_fill :: "RGBA \<Rightarrow> nat \<Rightarrow> byte list \<Rightarrow> byte list" where
  "Pixels_fill c k pix =
     (if k < length pix div 4
      then Pixels_fill c (Suc k)
             (pix[4 * k := cR c, 4 * k + 1 := cG c, 4 * k + 2 := cB c, 4 * k + 3 := cA c])
      else pix)"
  by pat_completeness auto
termination
  by (relation "measure (\<lambda>(c, k, pix). length pix div 4 - k)") auto

text \<open>
  The row loop of \<open>Pixels\<close>: row \<open>j\<close> of the result is copied from the cached
  buffer \<open>p\<close> of an image of width \<open>iw\<close>.
\<close>

function Pixels_rows :: "byte list \<Rightarrow> int \<Rightarrow> int \<Rightarrow> int \<Rightarrow> int \<Rightarrow> int \<Rightarrow> int \<Rightarrow> byte list \<Rightarrow> failure + byte list" where
  "Pixels_rows p iw x y w h j pix =
     (if j < h then
        (case slice_bounds pix (int64 (4 * j * w)) (int64 (4 * (j + 1) * w)) of
           Inl e \<Rightarrow> Inl e
         | Inr dst \<Rightarrow>
             (case slice_from p (int64 (4 * ((j + y) * iw + x))) of
                Inl e \<Rightarrow> Inl e
              | Inr src \<Rightarrow> Pixels_rows p iw x y w h (j + 1) (copy_to pix dst (drop (fst src) p))))
      else Inr pix)"
  by pat_completeness auto
termination
  by (relation "measure (\<lambda>(p, iw, x, y, w, h, j, pix). nat (h - j))") auto

definition Pixels :: "world \<Rightarrow> ref \<Rightarrow> int \<Rightarrow> int \<Rightarrow> int \<Rightarrow> int \<Rightarrow> (failure + byte list) \<times> world" where
  "Pixels s i x y w h =
     (case checkDelayedCommandsFlushed s ''Pixels'' of
        Some e \<Rightarrow> (Inl e, s)
      | None \<Rightarrow>
          if \<not> In (Rect x y (int64 (x + w)) (int64 (y + h)))
                   (Rect 0 0 (width (heap s i)) (height (heap s i)))
          then (Inl (Err ''buffered: out of range''), s)
          else
            (case make_bytes (int64 (4 * w * h)) of
               Inl e \<Rightarrow> (Inl e, s)
             | Inr pix \<Rightarrow>
                 if hasFill (heap s i) then (Inr (Pixels_fill (fillColor (heap s i)) 0 pix), s)
                 else
                   (case pixels (heap s i) of
                      Some p \<Rightarrow> (Pixels_rows p (width (heap s i)) x y w h 0 pix, s)
                    | None \<Rightarrow>
                        (let s1 = call s (MM_Pixels (img (heap s i)) 0 0
                                            (width (heap s i)) (height (heap s i)))
                         in case mmPixels s1 (gpu s1) of
                              Inl err \<Rightarrow> (Inl (Err err), s1)
                            | Inr p \<Rightarrow>
                                (let s2 = setImage s1 i ((heap s1 i)\<lparr>pixels := Some p\<rparr>)
                                 in (Pixels_rows p (width (heap s2 i)) x y w h 0 pix, s2))))))"

subsection \<open>Writing pixels\<close>

definition Fill :: "world \<Rightarrow> ref \<Rightarrow> RGBA \<Rightarrow> world" where
  "Fill s i clr =
     (case tryAddDelayedCommand s (C_Fill i clr) of
        (True, s') \<Rightarrow> s'
      | (False, _) \<Rightarrow>
          (let s1 = invalidatePendingPixels s i
           in setImage s1 i ((heap s1 i)\<lparr>fillColor := clr, hasFill := True\<rparr>)))"

text \<open>
  The row loop of \<open>replacePendingPixels\<close> on the buffer \<open>p\<close> of \<open>i.pixels\<close>
  (a \<open>nil\<close> slice has length 0). The buffer is written in place, so a panic
  leaves the rows copied before it.
\<close>

function replacePendingPixels_rows :: "byte list \<Rightarrow> int \<Rightarrow> int \<Rightarrow> int \<Rightarrow> int \<Rightarrow> int \<Rightarrow> int \<Rightarrow> byte list \<Rightarrow> failure option \<times> byte list" where
  "replacePendingPixels_rows pix iw x y w h j p =
     (if j < h then
        (case slice_from p (int64 (4 * ((j + y) * iw + x))) of
           Inl e \<Rightarrow> (Some e, p)
         | Inr dst \<Rightarrow>
             (case slice_bounds pix (int64 (4 * j * w)) (int64 (4 * (j + 1) * w)) of
                Inl e \<Rightarrow> (Some e, p)
              | Inr src \<Rightarrow>
                  replacePendingPixels_rows pix iw x y w h (j + 1)
                    (copy_to p dst (take (snd src) (drop (fst src) pix)))))
      else (None, p))"
  by pat_completeness auto
termination
  by (relation "measure (\<lambda>(pix, iw, x, y, w, h, j, p). nat (h - j))") auto

definition replacePendingPixels :: "world \<Rightarrow> ref \<Rightarrow> byte list \<Rightarrow> int \<Rightarrow> int \<Rightarrow> int \<Rightarrow> int \<Rightarrow> failure option \<times> world" where
  "replacePendingPixels s i pix x y w h =
     (case replacePendingPixels_rows pix (width (heap s i)) x y w h 0
             (case pixels (heap s i) of None \<Rightarrow> [] | Some p \<Rightarrow> p) of
        (Some e, p') \<Rightarrow>
          (Some e, setImage s i ((heap s i)\<lparr>pixels := map_option (\<lambda>_. p') (pixels (heap s i))\<rparr>))
      | (None, p') \<Rightarrow>
          (None, setImage s i ((heap s i)\<lparr>pixels := map_option (\<lambda>_. p') (pixels (heap s i)),
                                          needsToResolvePixels := True\<rparr>)))"

text \<open>
  The panic message of \<open>ReplacePixels\<close> carries the two lengths in the source; it
  is abbreviated here.
\<close>

definition ReplacePixels :: "world \<Rightarrow> ref \<Rightarrow> byte list \<Rightarrow> int \<Rightarrow> int \<Rightarrow> int \<Rightarrow> int \<Rightarrow> failure option \<times> world" where
  "ReplacePixels s i pix x y w h =
     (if int (length pix) \<noteq> int64 (4 * w * h)
      then (Some (Panic ''buffered: len(pix) has a wrong value''), s)
      else
        (case tryAddDelayedCommand s (C_ReplacePixels i pix x y w h) of
           (True, s') \<Rightarrow> (None, s')
         | (False, _) \<Rightarrow>
             if x = 0 \<and> y = 0 \<and> w = width (heap s i) \<and> h = height (heap s i)
             then
               (let s1 = invalidatePendingPixels s i
                in (None, setImage s1 i ((heap s1 i)\<lparr>pixels := Some pix,
                                                      needsToResolvePixels := True\<rparr>)))
             else
               (let s1 = resolvePendingFill s i
                in case pixels (heap s1 i) of
                     Some _ \<Rightarrow> replacePendingPixels s1 i pix x y w h
                   | None \<Rightarrow>
                       (let s2 = call s1 (MM_Pixels (img (heap s1 i)) 0 0
                                            (width (heap s1 i)) (height (heap s1 i)))
                        in case mmPixels s2 (gpu s2) of
                             Inl err \<Rightarrow> (Some (Err err), s2)
                           | Inr p \<Rightarrow>
                               replacePendingPixels
                                 (setImage s2 i ((heap s2 i)\<lparr>pixels := Some p\<rparr>)) i pix x y w h))))"

definition CopyPixels :: "world \<Rightarrow> ref \<Rightarrow> ref \<Rightarrow> int \<Rightarrow> int \<Rightarrow> int \<Rightarrow> int \<Rightarrow> failure option \<times> world" where
  "CopyPixels s i src x y w h =
     (case tryAddDelayedCommand s (C_CopyPixels i src x y w h) of
        (True, s') \<Rightarrow> (None, s')
      | (False, _) \<Rightarrow>
          (case Pixels s src x y w h of
             (Inl e, s1) \<Rightarrow> (Some e, s1)
           | (Inr pix, s1) \<Rightarrow> ReplacePixels s1 i pix 0 0 w h))"

subsection \<open>Compositing\<close>

text \<open>
  \<open>src.resolvePendingPixels(true)\<close> on a \<open>nil\<close> source reads a field through a
  nil pointer, which panics.
\<close>

definition drawImage :: "world \<Rightarrow> ref \<Rightarrow> ref option \<Rightarrow> opaque \<Rightarrow> failure option \<times> world" where
  "drawImage s i src args =
     (case src of
        None \<Rightarrow> (Some (Panic ''invalid memory address or nil pointer dereference''), s)
      | Some sr \<Rightarrow>
          (case resolvePendingPixels s sr True of
             (Some e, s1) \<Rightarrow> (Some e, s1)
           | (None, s1) \<Rightarrow>
               (case resolvePendingPixels s1 i False of
                  (Some e, s2) \<Rightarrow> (Some e, s2)
                | (None, s2) \<Rightarrow>
                    (None, call s2 (MM_DrawImage (img (heap s2 i)) (img (heap s2 sr)) args)))))"

definition DrawImage :: "world \<Rightarrow> ref \<Rightarrow> ref option \<Rightarrow> opaque \<Rightarrow> failure option \<times> world" where
  "DrawImage s i src args =
     (if Some i = src
      then (Some (Panic ''buffered: Image.DrawImage: src must be different from the receiver''), s)
      else
        (case tryAddDelayedCommand s (C_drawImage i src args) of
           (True, s') \<Rightarrow> (None, s')
         | (False, _) \<Rightarrow> drawImage s i src args))"

text \<open>
  The images of \<open>DrawTriangles\<close>: \<open>src\<close> when it is not nil, then the image
  uniforms (each a pointer that is not nil).
\<close>

fun uniformImages :: "uniform list \<Rightarrow> ref list" where
  "uniformImages [] = []"
| "uniformImages (UImage r # us) = r # uniformImages us"
| "uniformImages (UValue v # us) = uniformImages us"

definition srcs_of :: "ref option \<Rightarrow> uniform list \<Rightarrow> ref list" where
  "srcs_of src uniforms = (case src of None \<Rightarrow> [] | Some r \<Rightarrow> [r]) @ uniformImages uniforms"

text \<open>The loop resolving every source with \<open>keepPendingPixels = true\<close>.\<close>

fun resolveSources :: "world \<Rightarrow> ref list \<Rightarrow> failure option \<times> world" where
  "resolveSources s [] = (None, s)"
| "resolveSources s (r # rs) =
     (case resolvePendingPixels s r True of
        (Some e, s1) \<Rightarrow> (Some e, s1)
      | (None, s1) \<Rightarrow> resolveSources s1 rs)"

text \<open>
  The loop building \<open>us\<close>: for an image uniform the receiver \<open>i\<close> is resolved once
  more and the uniform's resource handle is stored.
\<close>

fun convertUniforms :: "world \<Rightarrow> ref \<Rightarrow> uniform list \<Rightarrow> (failure + mm_uniform list) \<times> world" where
  "convertUniforms s i [] = (Inr [], s)"
| "convertUniforms s i (UImage v # vs) =
     (case resolvePendingPixels s i True of
        (Some e, s1) \<Rightarrow> (Inl e, s1)
      | (None, s1) \<Rightarrow>
          (case convertUniforms s1 i vs of
             (Inl e, s2) \<Rightarrow> (Inl e, s2)
           | (Inr us, s2) \<Rightarrow> (Inr (MImage (img (heap s1 v)) # us), s2)))"
| "convertUniforms s i (UValue v # vs) =
     (case convertUniforms s i vs of
        (Inl e, s2) \<Rightarrow> (Inl e, s2)
      | (Inr us, s2) \<Rightarrow> (Inr (MValue v # us), s2))"

definition DrawTriangles :: "world \<Rightarrow> ref \<Rightarrow> ref option \<Rightarrow> opaque \<Rightarrow> Shader option \<Rightarrow> uniform list \<Rightarrow> failure option \<times> world" where
  "DrawTriangles s i src args shdr uniforms =
     (if i \<in> set (srcs_of src uniforms)
      then (Some (Panic ''buffered: Image.DrawTriangles: src must be different from the receiver''), s)
      else
        (case tryAddDelayedCommand s (C_DrawTriangles i src args shdr uniforms) of
           (True, s') \<Rightarrow> (None, s')
         | (False, _) \<Rightarrow>
             (case resolveSources s (srcs_of src uniforms) of
                (Some e, s1) \<Rightarrow> (Some e, s1)
              | (None, s1) \<Rightarrow>
                  (case resolvePendingPixels s1 i False of
                     (Some e, s2) \<Rightarrow> (Some e, s2)
                   | (None, s2) \<Rightarrow>
                       (case convertUniforms s2 i uniforms of
                          (Inl e, s3) \<Rightarrow> (Some e, s3)
                        | (Inr us, s3) \<Rightarrow>
                            (None,
                             call s3
                               (MM_DrawTriangles (img (heap s3 i))
                                  (case src of None \<Rightarrow> None | Some sr \<Rightarrow> img (heap s3 sr)) args
                                  (case shdr of None \<Rightarrow> None | Some sh \<Rightarrow> shader sh) us)))))))"

subsection \<open>Frames and the replay of captured calls\<close>

text \<open>
  Running one captured closure. Every closure of the source calls its method again and
  returns \<open>nil\<close>, whatever the method returned; a panic still propagates.
\<close>

definition dropError :: "failure option \<times> world \<Rightarrow> failure option \<times> world" where
  "dropError r = (case r of (Some (Panic m), s) \<Rightarrow> (Some (Panic m), s) | (_, s) \<Rightarrow> (None, s))"

fun run :: "world \<Rightarrow> command \<Rightarrow> failure option \<times> world" where
  "run s (C_initialize i w h v) = (None, initialize s i w h v)"
| "run s (C_initializeAsScreenFramebuffer i w h) = (None, initializeAsScreenFramebuffer s i w h)"
| "run s (C_MarkDisposed i) = (None, MarkDisposed s i)"
| "run s (C_Fill i clr) = (None, Fill s i clr)"
| "run s (C_ReplacePixels i pix x y w h) = dropError (ReplacePixels s i pix x y w h)"
| "run s (C_CopyPixels i src x y w h) = dropError (CopyPixels s i src x y w h)"
| "run s (C_drawImage i src args) = dropError (drawImage s i src args)"
| "run s (C_DrawTriangles i src args shdr us) = dropError (DrawTriangles s i src args shdr us)"

text \<open>
  Modelled from the spec: the loop of \<open>flushDelayedCommands\<close>, which is defined
  outside these sources. Spec 4.1: every captured operation is executed in insertion
  order; an error or a panic of one ends the loop.
\<close>

fun runAll :: "world \<Rightarrow> command list \<Rightarrow> failure option \<times> world" where
  "runAll s [] = (None, s)"
| "runAll s (c # cs) =
     (case run s c of
        (Some e, s1) \<Rightarrow> (Some e, s1)
      | (None, s1) \<Rightarrow> runAll s1 cs)"

text \<open>
  Modelled from the spec: \<open>flushDelayedCommands\<close> is defined outside these sources.
  Spec 4.1: the flush executes every captured operation in insertion order and
  permanently disables further deferral. The closures of the source re-enter the method
  that captured them, so deferral is off and the queue is empty when they run.
\<close>

definition flushDelayedCommands :: "world \<Rightarrow> failure option \<times> world" where
  "flushDelayedCommands s =
     (if needsToDelayCommands s
      then runAll (s\<lparr>needsToDelayCommands := False, delayedCommands := []\<rparr>) (delayedCommands s)
      else (None, s))"

definition BeginFrame :: "world \<Rightarrow> failure option \<times> world" where
  "BeginFrame s =
     (let s1 = call s MM_BeginFrame
      in case mmBeginFrame s1 (gpu s1) of
           Some err \<Rightarrow> (Some (Err err), s1)
         | None \<Rightarrow> flushDelayedCommands s1)"

declare Pixels_fill.simps [simp del]
declare Pixels_rows.simps [simp del]
declare replacePendingPixels_rows.simps [simp del]

subsection \<open>Vocabulary of the statements\<close>

text \<open>A value of Go's \<open>int\<close>.\<close>

definition is_int :: "int \<Rightarrow> bool" where
  "is_int n = (- (2 ^ 63) \<le> n \<and> n < 2 ^ 63)"

text \<open>
  An image whose dimensions are not negative and whose \<open>4 * width * height\<close> bytes
  can be counted by an \<open>int\<close> and allocated by \<open>make\<close>.
\<close>

definition dims_ok :: "Image \<Rightarrow> bool" where
  "dims_ok im =
     (0 \<le> width im \<and> 0 \<le> height im \<and> is_int (width im) \<and> is_int (height im) \<and>
      4 * width im * height im < 2 ^ 63 \<and> 4 * width im * height im \<le> maxAlloc)"

text \<open>The region \<open>(x, y, w, h)\<close> lies inside an image of size \<open>(iw, ih)\<close>.\<close>

definition in_region :: "int \<Rightarrow> int \<Rightarrow> int \<Rightarrow> int \<Rightarrow> int \<Rightarrow> int \<Rightarrow> bool" where
  "in_region x y w h iw ih = (0 \<le> x \<and> 0 \<le> y \<and> 0 \<le> w \<and> 0 \<le> h \<and> x + w \<le> iw \<and> y + h \<le> ih)"

text \<open>The four bytes of a colour, and \<open>n\<close> pixels of it.\<close>

definition rgba_bytes :: "RGBA \<Rightarrow> byte list" where
  "rgba_bytes c = [cR c, cG c, cB c, cA c]"

definition solid :: "nat \<Rightarrow> RGBA \<Rightarrow> byte list" where
  "solid n c = concat (replicate n (rgba_bytes c))"

text \<open>Row \<open>j\<close> of the region \<open>(x, y, w, _)\<close> in a buffer of an image of width \<open>iw\<close>.\<close>

definition region_row :: "byte list \<Rightarrow> int \<Rightarrow> int \<Rightarrow> int \<Rightarrow> int \<Rightarrow> int \<Rightarrow> byte list" where
  "region_row p iw x y w j = take (nat (4 * w)) (drop (nat (4 * ((j + y) * iw + x))) p)"

text \<open>
  The content of image \<open>i\<close> can be read without a failure of the resource: a fill is
  pending, or a full-size buffer is cached, or the read-back that \<open>Pixels\<close> would
  issue now returns a full-size buffer.
\<close>

definition content_ok :: "world \<Rightarrow> ref \<Rightarrow> bool" where
  "content_ok s i =
     (hasFill (heap s i) \<or>
      (case pixels (heap s i) of
         Some p \<Rightarrow> length p = nat (4 * width (heap s i) * height (heap s i))
       | None \<Rightarrow>
           (case mmPixels s (gpu s @ [MM_Pixels (img (heap s i)) 0 0
                                        (width (heap s i)) (height (heap s i))]) of
              Inl _ \<Rightarrow> False
            | Inr p \<Rightarrow> length p = nat (4 * width (heap s i) * height (heap s i)))))"

text \<open>
  A concrete run: a 4 by 4 image at address 0 is created before the first frame, and the
  first \<open>BeginFrame\<close> replays its initialisation. The resource answers every
  read-back with 64 zero bytes.
\<close>

definition frame4 :: world where
  "frame4 =
     snd (BeginFrame (initialize (start (\<lambda>_. Inr (replicate 64 0)) (\<lambda>_. None)) 0 4 4 False))"

definition red :: RGBA where
  "red = \<lparr>cR = 255, cG = 0, cB = 0, cA = 255\<rparr>"

definition blue :: RGBA where
  "blue = \<lparr>cR = 0, cG = 0, cB = 255, cA = 255\<rparr>"

text \<open>
  The calls a client of the package can issue, with \<open>resolvePendingPixels\<close> added
  for the resolution a draw forces. \<open>perform\<close> issues one call and keeps failure or
  success; \<open>step\<close> keeps the state only, so a run is a fold over a list of calls.
\<close>

datatype api_call =
    A_initialize ref int int bool
  | A_initializeAsScreenFramebuffer ref int int
  | A_MarkDisposed ref
  | A_Pixels ref int int int int
  | A_Fill ref RGBA
  | A_ReplacePixels ref "byte list" int int int int
  | A_CopyPixels ref ref int int int int
  | A_DrawImage ref "ref option" opaque
  | A_DrawTriangles ref "ref option" opaque "Shader option" "uniform list"
  | A_resolvePendingPixels ref bool
  | A_BeginFrame

fun perform :: "world \<Rightarrow> api_call \<Rightarrow> failure option \<times> world" where
  "perform s (A_initialize i w h v) = (None, initialize s i w h v)"
| "perform s (A_initializeAsScreenFramebuffer i w h) = (None, initializeAsScreenFramebuffer s i w h)"
| "perform s (A_MarkDisposed i) = (None, MarkDisposed s i)"
| "perform s (A_Pixels i x y w h) =
     (case Pixels s i x y w h of (Inl e, s') \<Rightarrow> (Some e, s') | (Inr pix, s') \<Rightarrow> (None, s'))"
| "perform s (A_Fill i clr) = (None, Fill s i clr)"
| "perform s (A_ReplacePixels i pix x y w h) = ReplacePixels s i pix x y w h"
| "perform s (A_CopyPixels i src x y w h) = CopyPixels s i src x y w h"
| "perform s (A_DrawImage i src args) = DrawImage s i src args"
| "perform s (A_DrawTriangles i src args shdr us) = DrawTriangles s i src args shdr us"
| "perform s (A_resolvePendingPixels i keep) = resolvePendingPixels s i keep"
| "perform s A_BeginFrame = BeginFrame s"

definition step :: "world \<Rightarrow> api_call \<Rightarrow> world" where
  "step s c = snd (perform s c)"

text \<open>No image has a pending fill and a pixel buffer awaiting resolution at once.\<close>

definition exclusive :: "world \<Rightarrow> bool" where
  "exclusive s = (\<forall>r. \<not> (hasFill (heap s r) \<and> needsToResolvePixels (heap s r)))"

text \<open>
  The closure a mutating call hands to \<open>tryAddDelayedCommand\<close>. A call that panics
  on its arguments before that (a buffer of the wrong length, a destination among its
  sources) hands over none, and neither does a read or \<open>BeginFrame\<close>.
\<close>

fun captured :: "api_call \<Rightarrow> command option" where
  "captured (A_initialize i w h v) = Some (C_initialize i w h v)"
| "captured (A_initializeAsScreenFramebuffer i w h) = Some (C_initializeAsScreenFramebuffer i w h)"
| "captured (A_MarkDisposed i) = Some (C_MarkDisposed i)"
| "captured (A_Fill i clr) = Some (C_Fill i clr)"
| "captured (A_ReplacePixels i pix x y w h) =
     (if int (length pix) \<noteq> int64 (4 * w * h) then None
      else Some (C_ReplacePixels i pix x y w h))"
| "captured (A_CopyPixels i src x y w h) = Some (C_CopyPixels i src x y w h)"
| "captured (A_DrawImage i src args) =
     (if Some i = src then None else Some (C_drawImage i src args))"
| "captured (A_DrawTriangles i src args shdr us) =
     (if i \<in> set (srcs_of src us) then None else Some (C_DrawTriangles i src args shdr us))"
| "captured (A_Pixels i x y w h) = None"
| "captured (A_resolvePendingPixels i keep) = None"
| "captured A_BeginFrame = None"

text \<open>Deferral is over: the flag is off and the queue is empty.\<close>

definition flushed :: "world \<Rightarrow> bool" where
  "flushed s = (\<not> needsToDelayCommands s \<and> delayedCommands s = [])"

text \<open>The same run on a resource whose every read-back fails.\<close>

definition lost4 :: world where
  "lost4 =
     snd (BeginFrame (initialize (start (\<lambda>_. Inl ''context lost'') (\<lambda>_. None)) 0 4 4 False))"

text \<open>The byte offset of row \<open>r\<close> of the region at \<open>(x, y)\<close> in the buffer of an image of width \<open>iw\<close>.\<close>

definition row_off :: "int \<Rightarrow> int \<Rightarrow> int \<Rightarrow> int \<Rightarrow> int" where
  "row_off iw x y r = 4 * ((r + y) * iw + x)"

text \<open>
  The cached buffer of image \<open>i\<close>, when there is one, has the size of the image; and
  the resource answers a read-back of the image with a buffer of that size or an error.
\<close>

definition buffer_ok :: "world \<Rightarrow> ref \<Rightarrow> bool" where
  "buffer_ok s i =
     (case pixels (heap s i) of
        None \<Rightarrow> True
      | Some p \<Rightarrow> length p = nat (4 * width (heap s i) * height (heap s i)))"

definition resource_ok :: "world \<Rightarrow> ref \<Rightarrow> bool" where
  "resource_ok s i =
     (\<forall>tr p. mmPixels s (tr @ [MM_Pixels (img (heap s i)) 0 0
                                   (width (heap s i)) (height (heap s i))]) = Inr p \<longrightarrow>
             length p = nat (4 * width (heap s i) * height (heap s i)))"

text \<open>
  A write is the argument list of one \<open>ReplacePixels\<close> call; \<open>writes\<close> issues a
  list of them on image \<open>i\<close> in order and stops at the first that fails.
\<close>

type_synonym region_write = "byte list \<times> int \<times> int \<times> int \<times> int"

fun writes :: "world \<Rightarrow> ref \<Rightarrow> region_write list \<Rightarrow> failure option \<times> world" where
  "writes s i [] = (None, s)"
| "writes s i ((pix, x, y, w, h) # ws) =
     (case ReplacePixels s i pix x y w h of
        (Some e, s1) \<Rightarrow> (Some e, s1)
      | (None, s1) \<Rightarrow> writes s1 i ws)"

text \<open>
  A partial write into an image of size \<open>(iw, ih)\<close>: its region lies inside the image
  and is not the whole image, and its buffer has \<open>4 * w * h\<close> bytes.
\<close>

fun partial_write :: "int \<Rightarrow> int \<Rightarrow> region_write \<Rightarrow> bool" where
  "partial_write iw ih (pix, x, y, w, h) =
     (in_region x y w h iw ih \<and> length pix = nat (4 * w * h) \<and>
      \<not> (x = 0 \<and> y = 0 \<and> w = iw \<and> h = ih))"

text \<open>Two regions share no pixel.\<close>

fun disjoint :: "region_write \<Rightarrow> region_write \<Rightarrow> bool" where
  "disjoint (pix1, x1, y1, w1, h1) (pix2, x2, y2, w2, h2) =
     (w1 \<le> 0 \<or> h1 \<le> 0 \<or> w2 \<le> 0 \<or> h2 \<le> 0 \<or>
      x1 + w1 \<le> x2 \<or> x2 + w2 \<le> x1 \<or> y1 + h1 \<le> y2 \<or> y2 + h2 \<le> y1)"

text \<open>
  Byte \<open>k\<close> of the image buffer lies in row \<open>r\<close> of the region of a write, and the
  byte of the write's buffer that belongs there.
\<close>

fun in_segment :: "int \<Rightarrow> region_write \<Rightarrow> int \<Rightarrow> nat \<Rightarrow> bool" where
  "in_segment iw (pix, x, y, w, h) r k =
     (0 \<le> r \<and> r < h \<and> row_off iw x y r \<le> int k \<and> int k < row_off iw x y r + 4 * w)"

fun written_byte :: "int \<Rightarrow> region_write \<Rightarrow> int \<Rightarrow> nat \<Rightarrow> byte" where
  "written_byte iw (pix, x, y, w, h) r k = pix ! nat (4 * r * w + (int k - row_off iw x y r))"

text \<open>
  The composite of the writes \<open>ws\<close> over the prior buffer \<open>p\<close>, in the words of the
  specification: every written sub-rectangle holds the bytes of its own buffer, and every
  byte outside all of them keeps its prior value.
\<close>

definition composite :: "int \<Rightarrow> region_write list \<Rightarrow> byte list \<Rightarrow> byte list \<Rightarrow> bool" where
  "composite iw ws p q =
     (length q = length p \<and>
      (\<forall>k < length p.
         (\<forall>wr \<in> set ws. \<forall>r. in_segment iw wr r k \<longrightarrow> q ! k = written_byte iw wr r k) \<and>
         ((\<forall>wr \<in> set ws. \<forall>r. \<not> in_segment iw wr r k) \<longrightarrow> q ! k = p ! k)))"

text \<open>
  The resource calls that the first partial write on image \<open>i\<close> issues, and the buffer
  that write starts from: the cached one, or else the answer to its read-back.
\<close>

definition first_calls :: "world \<Rightarrow> ref \<Rightarrow> mm_call list" where
  "first_calls s i =
     (if hasFill (heap s i) then [MM_Fill (img (heap s i)) (fillColor (heap s i))] else []) @
     (if pixels (heap s i) = None
      then [MM_Pixels (img (heap s i)) 0 0 (width (heap s i)) (height (heap s i))] else [])"

definition prior :: "world \<Rightarrow> ref \<Rightarrow> string + byte list" where
  "prior s i =
     (case pixels (heap s i) of
        Some p \<Rightarrow> Inr p
      | None \<Rightarrow> mmPixels s (gpu s @ first_calls s i))"

section \<open>Properties\<close>

subsection \<open>Record updates that change nothing\<close>

lemma hasFill_update_id: "hasFill r = b \<Longrightarrow> r\<lparr>hasFill := b\<rparr> = r"
  by (cases r) simp

lemma pixels_update_id: "pixels r = b \<Longrightarrow> r\<lparr>pixels := b\<rparr> = r"
  by (cases r) simp

subsection \<open>Arithmetic of \<open>int\<close>\<close>

lemma int64_id: "is_int n \<Longrightarrow> int64 n = n"
  by (simp add: int64_def is_int_def)

lemma is_int_between: "0 \<le> n \<Longrightarrow> n \<le> m \<Longrightarrow> m < 2 ^ 63 \<Longrightarrow> is_int n"
  unfolding is_int_def by linarith



lemma row_end_le:
  fixes j w h :: int
  assumes "0 \<le> w" "j < h"
  shows "4 * (j + 1) * w \<le> 4 * w * h"
proof -
  have "(j + 1) * w \<le> h * w" using assms by (intro mult_right_mono) auto
  then show ?thesis by (simp add: algebra_simps)
qed

lemma offset_le:
  fixes r x w W H :: int
  assumes "r < H" "0 \<le> W" "x + w \<le> W"
  shows "4 * (r * W + x) + 4 * w \<le> 4 * W * H"
proof -
  have "r * W \<le> (H - 1) * W" using assms by (intro mult_right_mono) auto
  then have "r * W + (x + w) \<le> H * W" using assms(3) by (simp add: algebra_simps)
  then show ?thesis by (simp add: algebra_simps)
qed

lemma area_le:
  fixes w h W H :: int
  assumes "0 \<le> w" "0 \<le> h" "w \<le> W" "h \<le> H"
  shows "4 * w * h \<le> 4 * W * H"
proof -
  have "w * h \<le> W * H" using assms by (intro mult_mono) auto
  then show ?thesis by simp
qed

subsection \<open>The loops of \<open>Pixels\<close> in closed form\<close>

lemma update4:
  assumes "4 * k + 4 \<le> length pix"
  shows "pix[4 * k := a, 4 * k + 1 := b, 4 * k + 2 := c, 4 * k + 3 := d] =
           take (4 * k) pix @ [a, b, c, d] @ drop (4 * k + 4) pix"
proof (rule nth_equalityI)
  show "length (pix[4 * k := a, 4 * k + 1 := b, 4 * k + 2 := c, 4 * k + 3 := d]) =
          length (take (4 * k) pix @ [a, b, c, d] @ drop (4 * k + 4) pix)"
    using assms by simp
next
  fix n assume "n < length (pix[4 * k := a, 4 * k + 1 := b, 4 * k + 2 := c, 4 * k + 3 := d])"
  then have n: "n < length pix" by simp
  consider "n < 4 * k" | "n = 4 * k" | "n = 4 * k + 1" | "n = 4 * k + 2" | "n = 4 * k + 3" | "4 * k + 4 \<le> n"
    by linarith
  then show "pix[4 * k := a, 4 * k + 1 := b, 4 * k + 2 := c, 4 * k + 3 := d] ! n =
          (take (4 * k) pix @ [a, b, c, d] @ drop (4 * k + 4) pix) ! n"
  proof cases
    case 6
    then obtain m where m: "n = 4 * k + 4 + m" using le_Suc_ex by blast
    show ?thesis using n assms unfolding m by (simp add: nth_append)
  qed (use n assms in \<open>simp_all add: nth_append\<close>)
qed

lemma Pixels_fill_closed:
  assumes "length pix = 4 * n" "k \<le> n"
  shows "Pixels_fill c k pix = take (4 * k) pix @ solid (n - k) c"
  using assms
proof (induction c k pix rule: Pixels_fill.induct)
  case (1 c k pix)
  show ?case
  proof (cases "k < n")
    case False
    then show ?thesis using "1.prems" by (subst Pixels_fill.simps) (simp add: solid_def)
  next
    case True
    then have lt: "k < length pix div 4" using "1.prems" by simp
    have le: "4 * k + 4 \<le> length pix" using True "1.prems" by simp
    define pix1 where "pix1 = pix[4 * k := cR c, 4 * k + 1 := cG c, 4 * k + 2 := cB c, 4 * k + 3 := cA c]"
    have p1: "pix1 = take (4 * k) pix @ rgba_bytes c @ drop (4 * k + 4) pix"
      unfolding pix1_def rgba_bytes_def by (rule update4 [OF le])
    have "Pixels_fill c (Suc k) pix1 = take (4 * Suc k) pix1 @ solid (n - Suc k) c"
      unfolding pix1_def by (rule "1.IH" [OF lt]) (use "1.prems" True in auto)
    moreover have "take (4 * Suc k) pix1 = take (4 * k) pix @ rgba_bytes c"
      unfolding p1 using le by (simp add: rgba_bytes_def)
    moreover have "n - k = Suc (n - Suc k)" using True by simp
    moreover have "Pixels_fill c k pix = Pixels_fill c (Suc k) pix1"
      by (subst Pixels_fill.simps) (simp only: lt if_True pix1_def)
    ultimately show ?thesis by (simp add: solid_def)
  qed
qed

lemma Pixels_fill_make: "Pixels_fill c 0 (replicate (4 * n) 0) = solid n c"
  using Pixels_fill_closed [of "replicate (4 * n) 0" n 0 c] by simp

lemma length_solid: "length (solid n c) = 4 * n"
  by (induction n) (simp_all add: solid_def rgba_bytes_def)

lemma Pixels_rows_closed:
  assumes "0 \<le> x" "0 \<le> y" "0 \<le> w" "x + w \<le> iw" "y + h \<le> ih"
    "length p = nat (4 * iw * ih)" "4 * iw * ih < 2 ^ 63" "length pix = nat (4 * w * h)" "0 \<le> j"
  shows "Pixels_rows p iw x y w h j pix =
           Inr (take (nat (4 * j * w)) pix @ concat (map (region_row p iw x y w) [j..h - 1]))"
  using assms
proof (induction p iw x y w h j pix rule: Pixels_rows.induct)
  case (1 p iw x y w h j pix)
  show ?case
  proof (cases "j < h")
    case False
    then have "h * w \<le> j * w" using "1.prems" by (intro mult_right_mono) auto
    then have "4 * w * h \<le> 4 * j * w" by (simp add: mult.commute)
    then have "take (nat (4 * j * w)) pix = pix" using "1.prems" by simp
    then show ?thesis using False by (subst Pixels_rows.simps) simp
  next
    case True
    have W0: "0 \<le> iw" using "1.prems" by linarith
    define L where "L = 4 * iw * ih"
    define l where "l = 4 * w * h"
    define ai where "ai = 4 * j * w"
    define bi where "bi = 4 * (j + 1) * w"
    define oi where "oi = 4 * ((j + y) * iw + x)"
    define wi where "wi = 4 * w"
    have lp: "length p = nat L" and L63: "L < 2 ^ 63" and lpix: "length pix = nat l"
      using "1.prems" unfolding L_def l_def by auto
    have whle: "l \<le> L"
      unfolding l_def L_def by (rule area_le) (use "1.prems" True in auto)
    have e1: "bi \<le> l" unfolding bi_def l_def using row_end_le "1.prems" True by simp
    have e0: "0 \<le> ai" unfolding ai_def using "1.prems" by simp
    have w0: "0 \<le> wi" unfolding wi_def using "1.prems" by simp
    have e01: "bi = ai + wi" unfolding ai_def bi_def wi_def by (simp add: algebra_simps)
    have o1: "oi + wi \<le> L" unfolding oi_def wi_def L_def
      using offset_le [of "j + y" ih iw x w] "1.prems" True W0 by simp
    have o0: "0 \<le> oi" unfolding oi_def using "1.prems" W0 by simp
    have i1: "int64 ai = ai"
      by (rule int64_id, rule is_int_between [OF e0 _ L63]) (use e01 e1 whle w0 in linarith)
    have i2: "int64 bi = bi"
      by (rule int64_id, rule is_int_between [OF _ _ L63]) (use e0 e01 e1 whle w0 in linarith)+
    have i3: "int64 oi = oi"
      by (rule int64_id, rule is_int_between [OF o0 _ L63]) (use o1 w0 in linarith)
    define a where "a = nat ai"
    define off where "off = nat oi"
    have sb: "slice_bounds pix (int64 ai) (int64 bi) = Inr (a, nat wi)"
      unfolding slice_bounds_def i1 i2 a_def using e0 e01 e1 w0 lpix by simp
    have sf: "slice_from p (int64 oi) = Inr (off, length p - off)"
      unfolding slice_from_def slice_bounds_def i3 off_def using o0 o1 w0 lp
      by (simp add: nat_diff_distrib)
    have rr: "region_row p iw x y w j = take (nat wi) (drop off p)"
      unfolding region_row_def off_def oi_def wi_def ..
    have lrow: "length (region_row p iw x y w j) = nat wi"
      unfolding rr off_def using o0 o1 w0 lp by simp
    have cp: "copy_to pix (a, nat wi) (drop off p) =
                take a pix @ region_row p iw x y w j @ drop (a + nat wi) pix"
    proof -
      have "nat wi \<le> length (drop off p)"
        unfolding off_def using o0 o1 w0 lp by simp
      then show ?thesis
        unfolding copy_to_def rr by (simp add: min_def Let_def)
    qed
    define pix1 where "pix1 = take a pix @ region_row p iw x y w j @ drop (a + nat wi) pix"
    have a_le: "a + nat wi \<le> length pix"
      unfolding a_def using e0 e01 e1 w0 lpix by simp
    have l1: "length pix1 = nat (4 * w * h)"
      unfolding pix1_def using a_le lrow lpix l_def by simp
    have a1: "nat bi = a + nat wi"
      unfolding a_def e01 using e0 w0 by (simp add: nat_add_distrib)
    have sb': "slice_bounds pix (int64 (4 * j * w)) (int64 (4 * (j + 1) * w)) = Inr (a, nat wi)"
      using sb unfolding ai_def bi_def .
    have sf': "slice_from p (int64 (4 * ((j + y) * iw + x))) = Inr (off, length p - off)"
      using sf unfolding oi_def .
    have l1': "length (copy_to pix (a, nat wi) (drop (fst (off, length p - off)) p)) = nat (4 * w * h)"
      using l1 unfolding pix1_def cp [symmetric] by simp
    have "Pixels_rows p iw x y w h (j + 1) (copy_to pix (a, nat wi) (drop (fst (off, length p - off)) p)) =
            Inr (take (nat (4 * (j + 1) * w)) (copy_to pix (a, nat wi) (drop (fst (off, length p - off)) p)) @
                 concat (map (region_row p iw x y w) [j + 1..h - 1]))"
      by (rule "1.IH" [OF True sb' sf']) (use "1.prems" l1' in auto)
    then have IH: "Pixels_rows p iw x y w h (j + 1) pix1 =
                Inr (take (nat bi) pix1 @ concat (map (region_row p iw x y w) [j + 1..h - 1]))"
      unfolding pix1_def cp [symmetric] bi_def by simp
    have tk: "take (nat bi) pix1 = take a pix @ region_row p iw x y w j"
      unfolding a1 pix1_def using a_le lrow by simp
    have up: "[j..h - 1] = j # [j + 1..h - 1]" using True by (simp add: upto_rec1)
    have "Pixels_rows p iw x y w h j pix = Pixels_rows p iw x y w h (j + 1) pix1"
      by (subst Pixels_rows.simps) (simp only: True if_True sb' sf' sum.case fst_conv cp pix1_def)
    then show ?thesis
      unfolding IH tk up a_def ai_def by simp
  qed
qed

text \<open>The rows of a region inside the image add up to \<open>4 * w * h\<close> bytes.\<close>

lemma length_region_row:
  assumes "0 \<le> x" "0 \<le> w" "x + w \<le> iw" "0 \<le> j + y" "j + y < ih" "length p = nat (4 * iw * ih)"
  shows "length (region_row p iw x y w j) = nat (4 * w)"
proof -
  have "4 * ((j + y) * iw + x) + 4 * w \<le> 4 * iw * ih"
    by (rule offset_le) (use assms in auto)
  moreover have "0 \<le> 4 * ((j + y) * iw + x)" using assms by simp
  ultimately show ?thesis unfolding region_row_def using assms(2,6) by simp
qed

lemma length_region_rows:
  assumes "0 \<le> x" "0 \<le> y" "0 \<le> w" "x + w \<le> iw" "y + h \<le> ih"
    "length p = nat (4 * iw * ih)" "0 \<le> j" "j \<le> h"
  shows "length (concat (map (region_row p iw x y w) [j..h - 1])) = nat (4 * w * (h - j))"
  using assms(7,8)
proof (induction "nat (h - j)" arbitrary: j)
  case 0
  then show ?case by simp
next
  case (Suc n)
  then have lt: "j < h" by linarith
  then have up: "[j..h - 1] = j # [j + 1..h - 1]" by (simp add: upto_rec1)
  have "length (concat (map (region_row p iw x y w) [j + 1..h - 1])) = nat (4 * w * (h - (j + 1)))"
    by (rule Suc.hyps(1)) (use Suc.hyps(2) Suc.prems lt in auto)
  moreover have "length (region_row p iw x y w j) = nat (4 * w)"
    by (rule length_region_row [where ih = ih]) (use assms lt Suc.prems in auto)
  moreover have "nat (4 * w) + nat (4 * w * (h - (j + 1))) = nat (4 * w * (h - j))"
  proof -
    have "0 \<le> 4 * w * (h - (j + 1))" using assms(3) lt by simp
    then have "nat (4 * w) + nat (4 * w * (h - (j + 1))) = nat (4 * w + 4 * w * (h - (j + 1)))"
      using assms(3) by (simp add: nat_add_distrib)
    also have "4 * w + 4 * w * (h - (j + 1)) = 4 * w * (h - j)" by (simp add: algebra_simps)
    finally show ?thesis .
  qed
  ultimately show ?case unfolding up by simp
qed


subsection \<open>The concrete run\<close>

lemma frame4_eq:
  "frame4 =
     \<lparr>heap = (\<lambda>_. zeroImage)(0 := zeroImage\<lparr>img := Some 1, width := 4, height := 4\<rparr>),
      gpu = [MM_BeginFrame, MM_New 1 4 4 False],
      mmPixels = (\<lambda>_. Inr (replicate 64 0)), mmBeginFrame = (\<lambda>_. None),
      needsToDelayCommands = False, delayedCommands = []\<rparr>"
  by (simp add: frame4_def BeginFrame_def flushDelayedCommands_def initialize_def start_def
      tryAddDelayedCommand_def call_def setImage_def Let_def)

subsection \<open>The range check of \<open>Pixels\<close>\<close>


text \<open>Inside the image the check passes and the buffer is allocated.\<close>

lemma in_region_passes:
  assumes "dims_ok im" "in_region x y w h (width im) (height im)"
  shows "In (Rect x y (int64 (x + w)) (int64 (y + h))) (Rect 0 0 (width im) (height im))"
    and "make_bytes (int64 (4 * w * h)) = Inr (replicate (nat (4 * w * h)) 0)"
proof -
  have xw: "int64 (x + w) = x + w"
    by (rule int64_id) (use assms in \<open>auto simp: dims_ok_def in_region_def is_int_def\<close>)
  have yh: "int64 (y + h) = y + h"
    by (rule int64_id) (use assms in \<open>auto simp: dims_ok_def in_region_def is_int_def\<close>)
  show "In (Rect x y (int64 (x + w)) (int64 (y + h))) (Rect 0 0 (width im) (height im))"
    unfolding xw yh using assms
    by (auto simp: In_def Empty_def Rect_def dims_ok_def in_region_def)
  have le: "4 * w * h \<le> 4 * width im * height im"
    by (rule area_le) (use assms in \<open>auto simp: in_region_def\<close>)
  have ge: "0 \<le> 4 * w * h" using assms by (simp add: in_region_def)
  have "int64 (4 * w * h) = 4 * w * h"
    by (rule int64_id, rule is_int_between [OF ge le]) (use assms in \<open>simp add: dims_ok_def\<close>)
  moreover have "4 * w * h \<le> maxAlloc"
    using le assms(1) by (simp add: dims_ok_def)
  ultimately show "make_bytes (int64 (4 * w * h)) = Inr (replicate (nat (4 * w * h)) 0)"
    using ge by (simp add: make_bytes_def)
qed

lemma nat_4wh: "0 \<le> w \<Longrightarrow> 0 \<le> h \<Longrightarrow> nat (4 * w * h) = 4 * nat (w * h)"
  by (simp add: nat_mult_distrib mult.assoc)

text \<open>While a fill is pending, a region inside the image reads as the fill colour.\<close>

lemma Pixels_pending_fill:
  assumes "\<not> needsToDelayCommands s" "dims_ok (heap s i)" "hasFill (heap s i)"
    "in_region x y w h (width (heap s i)) (height (heap s i))"
  shows "Pixels s i x y w h = (Inr (solid (nat (w * h)) (fillColor (heap s i))), s)"
proof -
  have n: "nat (4 * w * h) = 4 * nat (w * h)"
    by (rule nat_4wh) (use assms(4) in \<open>auto simp: in_region_def\<close>)
  show ?thesis
    using assms(1,3) in_region_passes [OF assms(2,4)]
    by (simp add: Pixels_def checkDelayedCommandsFlushed_def n Pixels_fill_make)
qed

text \<open>Without a pending fill the region is read from the cached or read-back buffer.\<close>

lemma Pixels_cached:
  assumes "\<not> needsToDelayCommands s" "dims_ok (heap s i)" "\<not> hasFill (heap s i)"
    "in_region x y w h (width (heap s i)) (height (heap s i))"
    "pixels (heap s i) = Some p" "length p = nat (4 * width (heap s i) * height (heap s i))"
  shows "Pixels s i x y w h =
           (Inr (concat (map (region_row p (width (heap s i)) x y w) [0..h - 1])), s)"
proof -
  have "Pixels_rows p (width (heap s i)) x y w h 0 (replicate (nat (4 * w * h)) 0) =
          Inr (take (nat (4 * 0 * w)) (replicate (nat (4 * w * h)) 0) @
               concat (map (region_row p (width (heap s i)) x y w) [0..h - 1]))"
    by (rule Pixels_rows_closed [where ih = "height (heap s i)"])
       (use assms in \<open>auto simp: in_region_def dims_ok_def\<close>)
  then show ?thesis
    using assms(1,3,5) in_region_passes [OF assms(2,4)]
    by (simp add: Pixels_def checkDelayedCommandsFlushed_def)
qed

lemma Pixels_readback:
  assumes "\<not> needsToDelayCommands s" "dims_ok (heap s i)" "\<not> hasFill (heap s i)"
    "in_region x y w h (width (heap s i)) (height (heap s i))"
    "pixels (heap s i) = None"
    "mmPixels s (gpu s @ [MM_Pixels (img (heap s i)) 0 0 (width (heap s i)) (height (heap s i))]) = Inr p"
    "length p = nat (4 * width (heap s i) * height (heap s i))"
  shows "Pixels s i x y w h =
           (Inr (concat (map (region_row p (width (heap s i)) x y w) [0..h - 1])),
            setImage (call s (MM_Pixels (img (heap s i)) 0 0 (width (heap s i)) (height (heap s i))))
              i ((heap s i)\<lparr>pixels := Some p\<rparr>))"
proof -
  have "Pixels_rows p (width (heap s i)) x y w h 0 (replicate (nat (4 * w * h)) 0) =
          Inr (take (nat (4 * 0 * w)) (replicate (nat (4 * w * h)) 0) @
               concat (map (region_row p (width (heap s i)) x y w) [0..h - 1]))"
    by (rule Pixels_rows_closed [where ih = "height (heap s i)"])
       (use assms in \<open>auto simp: in_region_def dims_ok_def\<close>)
  then show ?thesis
    using assms(1,3,5,6) in_region_passes [OF assms(2,4)]
    by (simp add: Pixels_def checkDelayedCommandsFlushed_def call_def setImage_def Let_def)
qed

lemma length_region_rows0:
  assumes "dims_ok im" "in_region x y w h (width im) (height im)"
    "length p = nat (4 * width im * height im)"
  shows "length (concat (map (region_row p (width im) x y w) [0..h - 1])) = nat (4 * w * h)"
  using length_region_rows [of x y w "width im" h "height im" p 0] assms
  by (simp add: in_region_def)




subsection \<open>Aliasing in the draw calls\<close>

lemma set_uniformImages: "set (uniformImages us) = {r. UImage r \<in> set us}"
  by (induction us rule: uniformImages.induct) auto

text \<open>
  C6. A draw whose destination is its source, or is among its image uniforms, panics and
  leaves the whole state as it was: no call of the resource has been issued and no
  pending state has been resolved, whether or not the first frame has begun.
\<close>

theorem Draw_aliasing_panics:
  "DrawImage s i (Some i) args =
     (Some (Panic ''buffered: Image.DrawImage: src must be different from the receiver''), s) \<and>
   (src = Some i \<or> UImage i \<in> set uniforms \<longrightarrow>
      DrawTriangles s i src args shdr uniforms =
        (Some (Panic ''buffered: Image.DrawTriangles: src must be different from the receiver''), s))"
  by (auto simp: DrawImage_def DrawTriangles_def srcs_of_def set_uniformImages split: option.splits)

theorem Draw_aliasing_panics_witness:
  "DrawImage frame4 0 (Some 0) 7 =
     (Some (Panic ''buffered: Image.DrawImage: src must be different from the receiver''), frame4) \<and>
   DrawTriangles frame4 0 (Some 3) 7 None [UValue 5, UImage 0] =
     (Some (Panic ''buffered: Image.DrawTriangles: src must be different from the receiver''), frame4) \<and>
   UImage 0 \<in> set [UValue 5, UImage 0]"
  using Draw_aliasing_panics [of frame4 0 7 "Some 3" "[UValue 5, UImage 0]" None]
  by simp

subsection \<open>Coalescing of fills\<close>

lemma Fill_active:
  "\<not> needsToDelayCommands s \<Longrightarrow>
     Fill s i c =
       setImage s i ((heap s i)\<lparr>pixels := None, needsToResolvePixels := False,
                                 fillColor := c, hasFill := True\<rparr>)"
  by (simp add: Fill_def tryAddDelayedCommand_def invalidatePendingPixels_def setImage_def Let_def)

lemma Fill_last:
  assumes "\<not> needsToDelayCommands s"
  shows "foldl (\<lambda>t c. Fill t i c) s (cs @ [c]) =
           setImage s i ((heap s i)\<lparr>pixels := None, needsToResolvePixels := False,
                                     fillColor := c, hasFill := True\<rparr>)"
  using assms
proof (induction cs arbitrary: s)
  case Nil
  then show ?case by (simp add: Fill_active)
next
  case (Cons a cs)
  have n: "\<not> needsToDelayCommands (Fill s i a)"
    using Cons.prems by (simp add: Fill_active setImage_def)
  show ?case
    using Cons.IH [OF n] Cons.prems by (simp add: Fill_active setImage_def)
qed

text \<open>
  C1. After any non-empty sequence of fills of an image, issued in a frame with nothing
  in between, no call of the resource has been made; a read of a region inside the image
  returns the last colour in every pixel; and resolving pushes one fill, of the last
  colour, to the resource. The image has a size that \<open>make\<close> can allocate
  (\<open>dims_ok\<close>), so the read does not panic on its buffer.
\<close>

theorem Fill_only_last_observed:
  assumes "\<not> needsToDelayCommands s" "dims_ok (heap s i)"
    "in_region x y w h (width (heap s i)) (height (heap s i))"
    "s' = foldl (\<lambda>t c. Fill t i c) s (cs @ [c])"
  shows "gpu s' = gpu s \<and>
         Pixels s' i x y w h = (Inr (solid (nat (w * h)) c), s') \<and>
         fst (resolvePendingPixels s' i keep) = None \<and>
         gpu (snd (resolvePendingPixels s' i keep)) = gpu s @ [MM_Fill (img (heap s i)) c]"
proof -
  have s': "s' = setImage s i ((heap s i)\<lparr>pixels := None, needsToResolvePixels := False,
                                           fillColor := c, hasFill := True\<rparr>)"
    unfolding assms(4) by (rule Fill_last [OF assms(1)])
  have 1: "gpu s' = gpu s" by (simp add: s' setImage_def)
  have "Pixels s' i x y w h = (Inr (solid (nat (w * h)) (fillColor (heap s' i))), s')"
    by (rule Pixels_pending_fill) (use assms(1-3) in \<open>simp_all add: s' setImage_def dims_ok_def\<close>)
  then have 2: "Pixels s' i x y w h = (Inr (solid (nat (w * h)) c), s')"
    by (simp add: s' setImage_def)
  have 3: "fst (resolvePendingPixels s' i keep) = None"
    "gpu (snd (resolvePendingPixels s' i keep)) = gpu s @ [MM_Fill (img (heap s i)) c]"
    by (simp_all add: s' resolvePendingPixels_def resolvePendingFill_def setImage_def call_def Let_def)
  show ?thesis using 1 2 3 by simp
qed

lemma frame4_facts:
  "\<not> needsToDelayCommands frame4" "dims_ok (heap frame4 0)" "content_ok frame4 0"
  "width (heap frame4 0) = 4" "height (heap frame4 0) = 4" "img (heap frame4 0) = Some 1"
  "gpu frame4 = [MM_BeginFrame, MM_New 1 4 4 False]"
  by (simp_all add: frame4_eq dims_ok_def maxAlloc_def heapAddrBits_def content_ok_def is_int_def zeroImage_def)

theorem Fill_only_last_observed_witness:
  "fst (Pixels (Fill (Fill frame4 0 red) 0 blue) 0 0 0 4 4) = Inr (solid 16 blue) \<and>
   gpu (Fill (Fill frame4 0 red) 0 blue) = gpu frame4 \<and>
   gpu (snd (resolvePendingPixels (Fill (Fill frame4 0 red) 0 blue) 0 False)) =
     [MM_BeginFrame, MM_New 1 4 4 False, MM_Fill (Some 1) blue] \<and>
   \<not> needsToDelayCommands frame4 \<and> dims_ok (heap frame4 0) \<and>
   in_region 0 0 4 4 (width (heap frame4 0)) (height (heap frame4 0))"
proof -
  have r: "in_region 0 0 4 4 (width (heap frame4 0)) (height (heap frame4 0))"
    by (simp add: frame4_facts in_region_def)
  have e: "Fill (Fill frame4 0 red) 0 blue = foldl (\<lambda>t c. Fill t 0 c) frame4 ([red] @ [blue])"
    by simp
  show ?thesis
    using Fill_only_last_observed [OF frame4_facts(1,2) r e, of False] r frame4_facts
    by simp
qed

subsection \<open>The two pending states exclude each other\<close>

lemma exclusive_queue [simp]:
  "exclusive (s\<lparr>delayedCommands := q\<rparr>) = exclusive s"
  "exclusive (s\<lparr>needsToDelayCommands := b\<rparr>) = exclusive s"
  "exclusive (call s c) = exclusive s"
  by (simp_all add: exclusive_def call_def)

lemma exclusive_initialize: "exclusive s \<Longrightarrow> exclusive (initialize s i w h v)"
  by (auto simp: initialize_def tryAddDelayedCommand_def Let_def exclusive_def setImage_def call_def)

lemma exclusive_initializeAsScreenFramebuffer:
  "exclusive s \<Longrightarrow> exclusive (initializeAsScreenFramebuffer s i w h)"
  by (auto simp: initializeAsScreenFramebuffer_def tryAddDelayedCommand_def Let_def exclusive_def
      setImage_def call_def)

lemma exclusive_MarkDisposed: "exclusive s \<Longrightarrow> exclusive (MarkDisposed s i)"
  by (auto simp: MarkDisposed_def tryAddDelayedCommand_def invalidatePendingPixels_def Let_def
      exclusive_def setImage_def call_def)

lemma exclusive_Fill: "exclusive s \<Longrightarrow> exclusive (Fill s i c)"
  by (auto simp: Fill_def tryAddDelayedCommand_def invalidatePendingPixels_def Let_def
      exclusive_def setImage_def)

lemma exclusive_Pixels: "exclusive s \<Longrightarrow> exclusive (snd (Pixels s i x y w h))"
  by (auto simp: Pixels_def checkDelayedCommandsFlushed_def Let_def exclusive_def setImage_def
      call_def split: option.splits sum.splits)

lemma exclusive_resolvePendingFill: "exclusive s \<Longrightarrow> exclusive (resolvePendingFill s i)"
  by (auto simp: resolvePendingFill_def Let_def exclusive_def setImage_def call_def)

lemma exclusive_resolvePendingPixels:
  "exclusive s \<Longrightarrow> exclusive (snd (resolvePendingPixels s i keep))"
  by (auto simp: resolvePendingPixels_def resolvePendingFill_def Let_def exclusive_def
      setImage_def call_def)

lemma replacePendingPixels_flags:
  "\<not> hasFill (heap s i) \<Longrightarrow> exclusive s \<Longrightarrow>
     exclusive (snd (replacePendingPixels s i pix x y w h))"
  by (auto simp: replacePendingPixels_def exclusive_def setImage_def split: prod.splits option.splits)

lemma resolvePendingFill_clears: "\<not> hasFill (heap (resolvePendingFill s i) i)"
  by (simp add: resolvePendingFill_def Let_def setImage_def call_def)

lemma exclusive_ReplacePixels:
  assumes "exclusive s"
  shows "exclusive (snd (ReplacePixels s i pix x y w h))"
proof (cases "int (length pix) \<noteq> int64 (4 * w * h) \<or> needsToDelayCommands s")
  case True
  then show ?thesis using assms by (auto simp: ReplacePixels_def tryAddDelayedCommand_def)
next
  case False
  show ?thesis
  proof (cases "x = 0 \<and> y = 0 \<and> w = width (heap s i) \<and> h = height (heap s i)")
    case True
    have "ReplacePixels s i pix x y w h =
            (None, setImage (invalidatePendingPixels s i) i
                     ((heap (invalidatePendingPixels s i) i)\<lparr>pixels := Some pix,
                        needsToResolvePixels := True\<rparr>))"
      using False True by (simp add: ReplacePixels_def tryAddDelayedCommand_def Let_def)
    then show ?thesis using assms
      by (auto simp: invalidatePendingPixels_def exclusive_def setImage_def)
  next
    case partial: False
    define s1 where "s1 = resolvePendingFill s i"
    have e1: "exclusive s1" and f1: "\<not> hasFill (heap s1 i)"
      unfolding s1_def using assms exclusive_resolvePendingFill resolvePendingFill_clears by auto
    show ?thesis
    proof (cases "pixels (heap s1 i)")
      case (Some p)
      then have "ReplacePixels s i pix x y w h = replacePendingPixels s1 i pix x y w h"
        using False partial by (auto simp: ReplacePixels_def tryAddDelayedCommand_def Let_def s1_def)
      then show ?thesis using replacePendingPixels_flags [OF f1 e1] by simp
    next
      case None
      define s2 where
        "s2 = call s1 (MM_Pixels (img (heap s1 i)) 0 0 (width (heap s1 i)) (height (heap s1 i)))"
      have e2: "exclusive s2" and f2: "\<not> hasFill (heap s2 i)"
        unfolding s2_def using e1 f1 by (simp_all add: call_def exclusive_def)
      show ?thesis
      proof (cases "mmPixels s2 (gpu s2)")
        case (Inl err)
        then have "ReplacePixels s i pix x y w h = (Some (Err err), s2)"
          using False partial None
          by (auto simp: ReplacePixels_def tryAddDelayedCommand_def Let_def s1_def s2_def)
        then show ?thesis using e2 by simp
      next
        case (Inr p)
        define s3 where "s3 = setImage s2 i ((heap s2 i)\<lparr>pixels := Some p\<rparr>)"
        have e3: "exclusive s3" and f3: "\<not> hasFill (heap s3 i)"
          unfolding s3_def using e2 f2 by (auto simp: exclusive_def setImage_def)
        have "ReplacePixels s i pix x y w h = replacePendingPixels s3 i pix x y w h"
          using False partial None Inr
          by (auto simp: ReplacePixels_def tryAddDelayedCommand_def Let_def s1_def s2_def s3_def)
        then show ?thesis using replacePendingPixels_flags [OF f3 e3] by simp
      qed
    qed
  qed
qed

lemma exclusive_CopyPixels:
  assumes "exclusive s"
  shows "exclusive (snd (CopyPixels s i src x y w h))"
proof (cases "needsToDelayCommands s")
  case True
  then show ?thesis using assms by (simp add: CopyPixels_def tryAddDelayedCommand_def)
next
  case False
  obtain r s1 where p: "Pixels s src x y w h = (r, s1)" by (cases "Pixels s src x y w h")
  have e1: "exclusive s1" using exclusive_Pixels [OF assms, of src x y w h] p by simp
  show ?thesis
  proof (cases r)
    case (Inl e)
    then show ?thesis using False p e1 by (simp add: CopyPixels_def tryAddDelayedCommand_def)
  next
    case (Inr pix)
    then have "CopyPixels s i src x y w h = ReplacePixels s1 i pix 0 0 w h"
      using False p by (simp add: CopyPixels_def tryAddDelayedCommand_def)
    then show ?thesis using exclusive_ReplacePixels [OF e1] by simp
  qed
qed

lemma exclusive_drawImage:
  assumes "exclusive s"
  shows "exclusive (snd (drawImage s i src args))"
proof (cases src)
  case None
  then show ?thesis using assms by (simp add: drawImage_def)
next
  case (Some sr)
  obtain r1 s1 where 1: "resolvePendingPixels s sr True = (r1, s1)"
    by (cases "resolvePendingPixels s sr True")
  have e1: "exclusive s1" using exclusive_resolvePendingPixels [OF assms, of sr True] 1 by simp
  obtain r2 s2 where 2: "resolvePendingPixels s1 i False = (r2, s2)"
    by (cases "resolvePendingPixels s1 i False")
  have e2: "exclusive s2" using exclusive_resolvePendingPixels [OF e1, of i False] 2 by simp
  show ?thesis using Some 1 2 e1 e2
    by (auto simp: drawImage_def split: option.splits)
qed

lemma exclusive_DrawImage: "exclusive s \<Longrightarrow> exclusive (snd (DrawImage s i src args))"
  using exclusive_drawImage [of s i src args]
  by (auto simp: DrawImage_def tryAddDelayedCommand_def)

lemma exclusive_resolveSources:
  "exclusive s \<Longrightarrow> exclusive (snd (resolveSources s rs))"
proof (induction rs arbitrary: s)
  case Nil
  then show ?case by simp
next
  case (Cons r rs)
  obtain e s1 where 1: "resolvePendingPixels s r True = (e, s1)"
    by (cases "resolvePendingPixels s r True")
  have e1: "exclusive s1" using exclusive_resolvePendingPixels [OF Cons.prems, of r True] 1 by simp
  show ?case using 1 e1 Cons.IH [OF e1] by (cases e) auto
qed

lemma exclusive_convertUniforms:
  "exclusive s \<Longrightarrow> exclusive (snd (convertUniforms s i us))"
proof (induction s i us rule: convertUniforms.induct)
  case (1 s i)
  then show ?case by simp
next
  case (2 s i v vs)
  obtain e s1 where 1: "resolvePendingPixels s i True = (e, s1)"
    by (cases "resolvePendingPixels s i True")
  have e1: "exclusive s1" using exclusive_resolvePendingPixels [OF "2.prems", of i True] 1 by simp
  show ?case
  proof (cases e)
    case None
    have "exclusive (snd (convertUniforms s1 i vs))"
      by (rule "2.IH" [OF 1 [symmetric] None e1])
    then show ?thesis using 1 None
      by (auto split: prod.splits sum.splits)
  next
    case (Some a)
    then show ?thesis using 1 e1 by simp
  qed
next
  case (3 s i v vs)
  then show ?case by (auto split: prod.splits sum.splits)
qed

lemma exclusive_DrawTriangles:
  assumes "exclusive s"
  shows "exclusive (snd (DrawTriangles s i src args shdr us))"
proof (cases "i \<in> set (srcs_of src us) \<or> needsToDelayCommands s")
  case True
  then show ?thesis using assms by (auto simp: DrawTriangles_def tryAddDelayedCommand_def)
next
  case False
  obtain r1 s1 where 1: "resolveSources s (srcs_of src us) = (r1, s1)"
    by (cases "resolveSources s (srcs_of src us)")
  have e1: "exclusive s1" using exclusive_resolveSources [OF assms, of "srcs_of src us"] 1 by simp
  obtain r2 s2 where 2: "resolvePendingPixels s1 i False = (r2, s2)"
    by (cases "resolvePendingPixels s1 i False")
  have e2: "exclusive s2" using exclusive_resolvePendingPixels [OF e1, of i False] 2 by simp
  obtain r3 s3 where 3: "convertUniforms s2 i us = (r3, s3)"
    by (cases "convertUniforms s2 i us")
  have e3: "exclusive s3" using exclusive_convertUniforms [OF e2, of i us] 3 by simp
  show ?thesis using False 1 2 3 e1 e2 e3
    by (auto simp: DrawTriangles_def tryAddDelayedCommand_def split: option.splits sum.splits)
qed

lemma exclusive_dropError: "exclusive (snd r) \<Longrightarrow> exclusive (snd (dropError r))"
  by (auto simp: dropError_def split: prod.splits option.splits failure.splits)

lemma exclusive_run: "exclusive s \<Longrightarrow> exclusive (snd (run s c))"
  by (cases c)
     (simp_all add: exclusive_initialize exclusive_initializeAsScreenFramebuffer
        exclusive_MarkDisposed exclusive_Fill exclusive_ReplacePixels exclusive_CopyPixels
        exclusive_drawImage exclusive_DrawTriangles exclusive_dropError)

lemma exclusive_runAll: "exclusive s \<Longrightarrow> exclusive (snd (runAll s cs))"
proof (induction cs arbitrary: s)
  case Nil
  then show ?case by simp
next
  case (Cons c cs)
  obtain e s1 where 1: "run s c = (e, s1)" by (cases "run s c")
  have e1: "exclusive s1" using exclusive_run [OF Cons.prems, of c] 1 by simp
  show ?case using 1 e1 Cons.IH [OF e1] by (cases e) auto
qed

lemma exclusive_BeginFrame: "exclusive s \<Longrightarrow> exclusive (snd (BeginFrame s))"
  by (auto simp: BeginFrame_def flushDelayedCommands_def Let_def intro!: exclusive_runAll
      split: option.splits)

lemma exclusive_step: "exclusive s \<Longrightarrow> exclusive (step s c)"
proof (cases c)
  case (A_Pixels i x y w h)
  assume "exclusive s"
  then have "exclusive (snd (Pixels s i x y w h))" by (rule exclusive_Pixels)
  then show ?thesis unfolding step_def A_Pixels
    by (auto split: prod.splits sum.splits)
qed (simp_all add: step_def exclusive_initialize exclusive_initializeAsScreenFramebuffer
        exclusive_MarkDisposed exclusive_Fill exclusive_ReplacePixels exclusive_CopyPixels
        exclusive_DrawImage exclusive_DrawTriangles exclusive_resolvePendingPixels
        exclusive_BeginFrame)

lemma exclusive_steps: "exclusive s \<Longrightarrow> exclusive (foldl step s cs)"
  by (induction cs arbitrary: s) (simp_all add: exclusive_step)

lemma exclusive_start: "exclusive (start rd bf)"
  by (simp add: exclusive_def start_def zeroImage_def)

lemma replacePendingPixels_sets:
  assumes "replacePendingPixels s i pix x y w h = (None, s')"
  shows "needsToResolvePixels (heap s' i)" "hasFill (heap s' i) = hasFill (heap s i)"
  using assms
  by (auto simp: replacePendingPixels_def setImage_def split: prod.splits option.splits)

lemma ReplacePixels_sets:
  assumes "\<not> needsToDelayCommands s" "ReplacePixels s i pix x y w h = (None, s')"
  shows "needsToResolvePixels (heap s' i) \<and> \<not> hasFill (heap s' i)"
proof (cases "int (length pix) \<noteq> int64 (4 * w * h)")
  case True
  then show ?thesis using assms by (simp add: ReplacePixels_def)
next
  case False
  show ?thesis
  proof (cases "x = 0 \<and> y = 0 \<and> w = width (heap s i) \<and> h = height (heap s i)")
    case True
    then show ?thesis using False assms
      by (auto simp: ReplacePixels_def tryAddDelayedCommand_def Let_def
          invalidatePendingPixels_def setImage_def)
  next
    case partial: False
    define s1 where "s1 = resolvePendingFill s i"
    have f1: "\<not> hasFill (heap s1 i)"
      unfolding s1_def by (rule resolvePendingFill_clears)
    show ?thesis
    proof (cases "pixels (heap s1 i)")
      case (Some p)
      then have "replacePendingPixels s1 i pix x y w h = (None, s')"
        using False partial assms
        by (auto simp: ReplacePixels_def tryAddDelayedCommand_def Let_def s1_def)
      then show ?thesis using replacePendingPixels_sets f1 by blast
    next
      case None
      define s2 where
        "s2 = call s1 (MM_Pixels (img (heap s1 i)) 0 0 (width (heap s1 i)) (height (heap s1 i)))"
      have f2: "\<not> hasFill (heap s2 i)"
        unfolding s2_def using f1 by (simp add: call_def)
      show ?thesis
      proof (cases "mmPixels s2 (gpu s2)")
        case (Inl err)
        then have "ReplacePixels s i pix x y w h = (Some (Err err), s2)"
          using False partial None assms(1)
          by (auto simp: ReplacePixels_def tryAddDelayedCommand_def Let_def s1_def s2_def)
        then show ?thesis using assms(2) by simp
      next
        case (Inr p)
        define s3 where "s3 = setImage s2 i ((heap s2 i)\<lparr>pixels := Some p\<rparr>)"
        have f3: "\<not> hasFill (heap s3 i)"
          unfolding s3_def using f2 by (simp add: setImage_def)
        have "replacePendingPixels s3 i pix x y w h = (None, s')"
          using False partial None Inr assms
          by (auto simp: ReplacePixels_def tryAddDelayedCommand_def Let_def s1_def s2_def s3_def)
        then show ?thesis using replacePendingPixels_sets f3 by blast
      qed
    qed
  qed
qed

text \<open>
  C4. In every state reached from process start by any sequence of calls, whatever the
  resource answers, no image has a pending fill and a pixel buffer awaiting resolution
  at once; in a frame, \<open>Fill\<close> sets the first and clears the second, and a
  \<open>ReplacePixels\<close> that returns \<open>nil\<close> sets the second and clears the first.
\<close>

theorem pending_states_exclusive:
  "exclusive (foldl step (start rd bf) cs) \<and>
   (\<not> needsToDelayCommands s \<longrightarrow>
      hasFill (heap (Fill s i c) i) \<and> \<not> needsToResolvePixels (heap (Fill s i c) i)) \<and>
   (\<not> needsToDelayCommands s \<and> fst (ReplacePixels s i pix x y w h) = None \<longrightarrow>
      needsToResolvePixels (heap (snd (ReplacePixels s i pix x y w h)) i) \<and>
      \<not> hasFill (heap (snd (ReplacePixels s i pix x y w h)) i))"
proof (intro conjI impI)
  show "exclusive (foldl step (start rd bf) cs)"
    by (rule exclusive_steps [OF exclusive_start])
next
  assume "\<not> needsToDelayCommands s"
  then show "hasFill (heap (Fill s i c) i)" "\<not> needsToResolvePixels (heap (Fill s i c) i)"
    by (simp_all add: Fill_active setImage_def)
next
  assume a: "\<not> needsToDelayCommands s \<and> fst (ReplacePixels s i pix x y w h) = None"
  then have "ReplacePixels s i pix x y w h = (None, snd (ReplacePixels s i pix x y w h))"
    by (metis prod.collapse)
  then show "needsToResolvePixels (heap (snd (ReplacePixels s i pix x y w h)) i)"
    "\<not> hasFill (heap (snd (ReplacePixels s i pix x y w h)) i)"
    using ReplacePixels_sets a by blast+
qed

theorem pending_states_exclusive_witness:
  "exclusive (foldl step (start (\<lambda>_. Inr (replicate 64 0)) (\<lambda>_. None))
               [A_initialize 0 4 4 False, A_BeginFrame, A_Fill 0 red,
                A_ReplacePixels 0 (replicate 4 7) 1 1 1 1]) \<and>
   hasFill (heap (Fill frame4 0 red) 0) \<and>
   \<not> needsToResolvePixels (heap (Fill frame4 0 red) 0) \<and>
   needsToResolvePixels (heap (snd (ReplacePixels (Fill frame4 0 red) 0 (replicate 4 7) 1 1 1 1)) 0) \<and>
   \<not> hasFill (heap (snd (ReplacePixels (Fill frame4 0 red) 0 (replicate 4 7) 1 1 1 1)) 0) \<and>
   \<not> needsToDelayCommands (Fill frame4 0 red) \<and>
   fst (ReplacePixels (Fill frame4 0 red) 0 (replicate 4 7) 1 1 1 1) = None"
proof -
  have n: "\<not> needsToDelayCommands frame4" "\<not> needsToDelayCommands (Fill frame4 0 red)"
    by (simp_all add: frame4_facts Fill_active setImage_def)
  have r: "fst (ReplacePixels (Fill frame4 0 red) 0 (replicate 4 7) 1 1 1 1) = None"
    by (simp add: Fill_active frame4_facts frame4_eq ReplacePixels_def tryAddDelayedCommand_def
        resolvePendingFill_def replacePendingPixels_def setImage_def call_def int64_def
        replacePendingPixels_rows.simps slice_from_def slice_bounds_def Let_def zeroImage_def)
  show ?thesis
    using pending_states_exclusive
      [of "\<lambda>_. Inr (replicate 64 0)" "\<lambda>_. None"
          "[A_initialize 0 4 4 False, A_BeginFrame, A_Fill 0 red, A_ReplacePixels 0 (replicate 4 7) 1 1 1 1]"
          frame4 0 red]
      pending_states_exclusive
      [of "\<lambda>_. Inr (replicate 64 0)" "\<lambda>_. None" "[]" "Fill frame4 0 red" 0 red "replicate 4 7" 1 1 1 1]
      n r
    by simp
qed

subsection \<open>Deferral before the first frame\<close>

lemma flushed_simps [simp]:
  "flushed (call s c) = flushed s"
  "flushed (setImage s r im) = flushed s"
  by (simp_all add: flushed_def call_def setImage_def)

lemma flushed_initialize: "flushed s \<Longrightarrow> flushed (initialize s i w h v)"
  by (auto simp: initialize_def tryAddDelayedCommand_def Let_def flushed_def setImage_def call_def)

lemma flushed_initializeAsScreenFramebuffer:
  "flushed s \<Longrightarrow> flushed (initializeAsScreenFramebuffer s i w h)"
  by (auto simp: initializeAsScreenFramebuffer_def tryAddDelayedCommand_def Let_def flushed_def
      setImage_def call_def)

lemma flushed_invalidatePendingPixels [simp]: "flushed (invalidatePendingPixels s i) = flushed s"
  by (simp add: invalidatePendingPixels_def)

lemma flushed_resolvePendingFill [simp]: "flushed (resolvePendingFill s i) = flushed s"
  by (simp add: resolvePendingFill_def Let_def)

lemma flushed_MarkDisposed: "flushed s \<Longrightarrow> flushed (MarkDisposed s i)"
  by (auto simp: MarkDisposed_def tryAddDelayedCommand_def Let_def flushed_def
      invalidatePendingPixels_def setImage_def call_def)

lemma flushed_Fill: "flushed s \<Longrightarrow> flushed (Fill s i c)"
  by (auto simp: Fill_def tryAddDelayedCommand_def Let_def flushed_def
      invalidatePendingPixels_def setImage_def)

lemma flushed_Pixels: "flushed s \<Longrightarrow> flushed (snd (Pixels s i x y w h))"
  by (auto simp: Pixels_def checkDelayedCommandsFlushed_def Let_def flushed_def setImage_def
      call_def split: option.splits sum.splits)

lemma flushed_resolvePendingPixels:
  "flushed s \<Longrightarrow> flushed (snd (resolvePendingPixels s i keep))"
  by (simp add: resolvePendingPixels_def Let_def)

lemma flushed_replacePendingPixels:
  "flushed s \<Longrightarrow> flushed (snd (replacePendingPixels s i pix x y w h))"
  by (auto simp: replacePendingPixels_def split: prod.splits option.splits)

lemma flushed_ReplacePixels:
  assumes "flushed s"
  shows "flushed (snd (ReplacePixels s i pix x y w h))"
proof -
  have n: "\<not> needsToDelayCommands s" using assms by (simp add: flushed_def)
  show ?thesis
    using assms n
    by (auto simp: ReplacePixels_def tryAddDelayedCommand_def Let_def
        intro!: flushed_replacePendingPixels split: option.splits sum.splits)
qed

lemma flushed_CopyPixels:
  assumes "flushed s"
  shows "flushed (snd (CopyPixels s i src x y w h))"
proof -
  have n: "\<not> needsToDelayCommands s" using assms by (simp add: flushed_def)
  obtain r s1 where p: "Pixels s src x y w h = (r, s1)" by (cases "Pixels s src x y w h")
  have f1: "flushed s1" using flushed_Pixels [OF assms, of src x y w h] p by simp
  show ?thesis
    using n p f1 flushed_ReplacePixels [OF f1]
    by (cases r) (simp_all add: CopyPixels_def tryAddDelayedCommand_def)
qed

lemma flushed_drawImage:
  assumes "flushed s"
  shows "flushed (snd (drawImage s i src args))"
proof (cases src)
  case None
  then show ?thesis using assms by (simp add: drawImage_def)
next
  case (Some sr)
  obtain r1 s1 where 1: "resolvePendingPixels s sr True = (r1, s1)"
    by (cases "resolvePendingPixels s sr True")
  have e1: "flushed s1" using flushed_resolvePendingPixels [OF assms, of sr True] 1 by simp
  obtain r2 s2 where 2: "resolvePendingPixels s1 i False = (r2, s2)"
    by (cases "resolvePendingPixels s1 i False")
  have e2: "flushed s2" using flushed_resolvePendingPixels [OF e1, of i False] 2 by simp
  show ?thesis using Some 1 2 e1 e2
    by (auto simp: drawImage_def split: option.splits)
qed

lemma flushed_DrawImage: "flushed s \<Longrightarrow> flushed (snd (DrawImage s i src args))"
  using flushed_drawImage [of s i src args]
  by (auto simp: DrawImage_def tryAddDelayedCommand_def flushed_def)

lemma flushed_resolveSources: "flushed s \<Longrightarrow> flushed (snd (resolveSources s rs))"
proof (induction rs arbitrary: s)
  case Nil
  then show ?case by simp
next
  case (Cons r rs)
  obtain e s1 where 1: "resolvePendingPixels s r True = (e, s1)"
    by (cases "resolvePendingPixels s r True")
  have e1: "flushed s1" using flushed_resolvePendingPixels [OF Cons.prems, of r True] 1 by simp
  show ?case using 1 e1 Cons.IH [OF e1] by (cases e) auto
qed

lemma flushed_convertUniforms: "flushed s \<Longrightarrow> flushed (snd (convertUniforms s i us))"
proof (induction s i us rule: convertUniforms.induct)
  case (1 s i)
  then show ?case by simp
next
  case (2 s i v vs)
  obtain e s1 where 1: "resolvePendingPixels s i True = (e, s1)"
    by (cases "resolvePendingPixels s i True")
  have e1: "flushed s1" using flushed_resolvePendingPixels [OF "2.prems", of i True] 1 by simp
  show ?case
  proof (cases e)
    case None
    have "flushed (snd (convertUniforms s1 i vs))"
      by (rule "2.IH" [OF 1 [symmetric] None e1])
    then show ?thesis using 1 None
      by (auto split: prod.splits sum.splits)
  next
    case (Some a)
    then show ?thesis using 1 e1 by simp
  qed
next
  case (3 s i v vs)
  then show ?case by (auto split: prod.splits sum.splits)
qed

lemma flushed_DrawTriangles:
  assumes "flushed s"
  shows "flushed (snd (DrawTriangles s i src args shdr us))"
proof (cases "i \<in> set (srcs_of src us)")
  case True
  then show ?thesis using assms by (auto simp: DrawTriangles_def)
next
  case False
  have n: "\<not> needsToDelayCommands s" using assms by (simp add: flushed_def)
  obtain r1 s1 where 1: "resolveSources s (srcs_of src us) = (r1, s1)"
    by (cases "resolveSources s (srcs_of src us)")
  have e1: "flushed s1" using flushed_resolveSources [OF assms, of "srcs_of src us"] 1 by simp
  obtain r2 s2 where 2: "resolvePendingPixels s1 i False = (r2, s2)"
    by (cases "resolvePendingPixels s1 i False")
  have e2: "flushed s2" using flushed_resolvePendingPixels [OF e1, of i False] 2 by simp
  obtain r3 s3 where 3: "convertUniforms s2 i us = (r3, s3)"
    by (cases "convertUniforms s2 i us")
  have e3: "flushed s3" using flushed_convertUniforms [OF e2, of i us] 3 by simp
  show ?thesis using False n 1 2 3 e1 e2 e3
    by (auto simp: DrawTriangles_def tryAddDelayedCommand_def split: option.splits sum.splits)
qed

lemma flushed_BeginFrame: "flushed s \<Longrightarrow> flushed (snd (BeginFrame s))"
  by (auto simp: BeginFrame_def flushDelayedCommands_def Let_def flushed_def call_def
      split: option.splits)

lemma flushed_step: "flushed s \<Longrightarrow> flushed (step s c)"
proof (cases c)
  case (A_Pixels i x y w h)
  assume "flushed s"
  then have "flushed (snd (Pixels s i x y w h))" by (rule flushed_Pixels)
  then show ?thesis unfolding step_def A_Pixels
    by (auto split: prod.splits sum.splits)
qed (simp_all add: step_def flushed_initialize flushed_initializeAsScreenFramebuffer
        flushed_MarkDisposed flushed_Fill flushed_ReplacePixels flushed_CopyPixels
        flushed_DrawImage flushed_DrawTriangles flushed_resolvePendingPixels
        flushed_BeginFrame)

lemma flushed_steps: "flushed s \<Longrightarrow> flushed (foldl step s cs)"
  by (induction cs arbitrary: s) (simp_all add: flushed_step)

text \<open>While deferral is on, a mutating call only appends its closure to the queue.\<close>

lemma perform_deferred:
  assumes "needsToDelayCommands s" "captured c = Some k"
  shows "perform s c = (None, s\<lparr>delayedCommands := delayedCommands s @ [k]\<rparr>)"
  using assms
  by (cases c)
     (auto simp: initialize_def initializeAsScreenFramebuffer_def MarkDisposed_def Fill_def
        ReplacePixels_def CopyPixels_def DrawImage_def DrawTriangles_def
        tryAddDelayedCommand_def split: if_splits)

lemma steps_deferred:
  assumes "needsToDelayCommands s" "map captured cs = map Some ks"
  shows "foldl step s cs = s\<lparr>delayedCommands := delayedCommands s @ ks\<rparr>"
  using assms
proof (induction cs arbitrary: s ks)
  case Nil
  then show ?case by simp
next
  case (Cons c cs)
  then obtain k ks' where ks: "ks = k # ks'" "captured c = Some k" "map captured cs = map Some ks'"
    by (cases ks) auto
  have 1: "step s c = s\<lparr>delayedCommands := delayedCommands s @ [k]\<rparr>"
    unfolding step_def using perform_deferred [OF Cons.prems(1) ks(2)] by simp
  have "foldl step (step s c) cs = (step s c)\<lparr>delayedCommands := delayedCommands (step s c) @ ks'\<rparr>"
    by (rule Cons.IH) (use 1 Cons.prems(1) ks(3) in simp_all)
  then show ?case unfolding ks(1) by (simp add: 1)
qed

text \<open>In a frame, running a closure is issuing the call it was captured from.\<close>

lemma run_captured:
  assumes "\<not> needsToDelayCommands t" "captured c = Some k"
  shows "run t k = dropError (perform t c)"
  using assms
  by (cases c)
     (auto simp: dropError_def DrawImage_def tryAddDelayedCommand_def split: if_splits)

lemma dropError_snd [simp]: "snd (dropError r) = snd r"
  by (auto simp: dropError_def split: prod.splits option.splits failure.splits)

lemma runAll_replays:
  assumes "flushed t" "map captured cs = map Some ks" "fst (runAll t ks) = None"
  shows "snd (runAll t ks) = foldl step t cs"
  using assms
proof (induction cs arbitrary: t ks)
  case Nil
  then show ?case by simp
next
  case (Cons c cs)
  then obtain k ks' where ks: "ks = k # ks'" "captured c = Some k" "map captured cs = map Some ks'"
    by (cases ks) auto
  have n: "\<not> needsToDelayCommands t" using Cons.prems(1) by (simp add: flushed_def)
  obtain e t1 where r: "run t k = (e, t1)" by (cases "run t k")
  have t1: "t1 = step t c"
    using r run_captured [OF n ks(2)] by (simp add: step_def) (metis dropError_snd snd_conv)
  have e: "e = None" using Cons.prems(3) r unfolding ks(1) by (cases e) auto
  have "snd (runAll t1 ks') = foldl step t1 cs"
    by (rule Cons.IH) (use Cons.prems ks r e t1 flushed_step in auto)
  then show ?case using r e t1 unfolding ks(1) by simp
qed

lemma flushed_runAll:
  assumes "flushed t" "map captured cs = map Some ks"
  shows "flushed (snd (runAll t ks))"
  using assms
proof (induction cs arbitrary: t ks)
  case Nil
  then show ?case by simp
next
  case (Cons c cs)
  then obtain k ks' where ks: "ks = k # ks'" "captured c = Some k" "map captured cs = map Some ks'"
    by (cases ks) auto
  have n: "\<not> needsToDelayCommands t" using Cons.prems(1) by (simp add: flushed_def)
  obtain e t1 where r: "run t k = (e, t1)" by (cases "run t k")
  have t1: "t1 = step t c"
    using r run_captured [OF n ks(2)] by (simp add: step_def) (metis dropError_snd snd_conv)
  have f1: "flushed t1" unfolding t1 by (rule flushed_step [OF Cons.prems(1)])
  show ?case using Cons.IH [OF f1 ks(3)] r f1 unfolding ks(1) by (cases e) auto
qed

text \<open>
  C3 (amended). From a state before the first frame with an empty queue, mutating calls that pass
  their argument checks leave images and resource untouched and queue their closures in
  call order. The first \<open>BeginFrame\<close> that the resource accepts runs the queue in
  that order with deferral off; when no replayed call panics, the state is the one
  reached by issuing the same calls, in the same order, inside the frame. Afterwards no
  call is deferred, whatever is called.
\<close>

theorem deferred_calls_replayed:
  assumes "needsToDelayCommands s" "delayedCommands s = []"
    "map captured cs = map Some ks"
    "mmBeginFrame s (gpu s @ [MM_BeginFrame]) = None"
    "s1 = foldl step s cs"
    "t = (call s MM_BeginFrame)\<lparr>needsToDelayCommands := False, delayedCommands := []\<rparr>"
  shows "heap s1 = heap s \<and> gpu s1 = gpu s \<and> needsToDelayCommands s1 \<and>
         delayedCommands s1 = ks \<and>
         BeginFrame s1 = runAll t ks \<and>
         (fst (BeginFrame s1) = None \<longrightarrow> snd (BeginFrame s1) = foldl step t cs) \<and>
         flushed (foldl step (snd (BeginFrame s1)) cs')"
proof -
  have s1: "s1 = s\<lparr>delayedCommands := ks\<rparr>"
    unfolding assms(5) using steps_deferred [OF assms(1,3)] assms(2) by simp
  have bf: "BeginFrame s1 = runAll t ks"
    unfolding s1 assms(6) using assms(1,4)
    by (simp add: BeginFrame_def flushDelayedCommands_def call_def Let_def)
  have ft: "flushed t" unfolding assms(6) by (simp add: flushed_def)
  have 1: "fst (BeginFrame s1) = None \<longrightarrow> snd (BeginFrame s1) = foldl step t cs"
    unfolding bf using runAll_replays [OF ft assms(3)] by simp
  have "flushed (snd (BeginFrame s1))"
    unfolding bf by (rule flushed_runAll [OF ft assms(3)])
  then have 2: "flushed (foldl step (snd (BeginFrame s1)) cs')" by (rule flushed_steps)
  show ?thesis using s1 bf 1 2 assms(1) by simp
qed

theorem deferred_calls_replayed_witness:
  "heap (foldl step (start (\<lambda>_. Inr (replicate 64 0)) (\<lambda>_. None))
           [A_initialize 0 4 4 False, A_Fill 0 red, A_Fill 0 blue]) 0 = zeroImage \<and>
   delayedCommands (foldl step (start (\<lambda>_. Inr (replicate 64 0)) (\<lambda>_. None))
           [A_initialize 0 4 4 False, A_Fill 0 red, A_Fill 0 blue]) =
     [C_initialize 0 4 4 False, C_Fill 0 red, C_Fill 0 blue] \<and>
   fst (BeginFrame (foldl step (start (\<lambda>_. Inr (replicate 64 0)) (\<lambda>_. None))
           [A_initialize 0 4 4 False, A_Fill 0 red, A_Fill 0 blue])) = None \<and>
   fillColor (heap (snd (BeginFrame (foldl step (start (\<lambda>_. Inr (replicate 64 0)) (\<lambda>_. None))
           [A_initialize 0 4 4 False, A_Fill 0 red, A_Fill 0 blue]))) 0) = blue \<and>
   flushed (foldl step (snd (BeginFrame (foldl step (start (\<lambda>_. Inr (replicate 64 0)) (\<lambda>_. None))
           [A_initialize 0 4 4 False, A_Fill 0 red, A_Fill 0 blue]))) [A_Fill 0 red])"
proof -
  define s where "s = start (\<lambda>_. Inr (replicate 64 0)) (\<lambda>_. None)"
  define cs where "cs = [A_initialize 0 4 4 False, A_Fill 0 red, A_Fill 0 blue]"
  define t where "t = (call s MM_BeginFrame)\<lparr>needsToDelayCommands := False, delayedCommands := []\<rparr>"
  have h: "needsToDelayCommands s" "delayedCommands s = []"
    "map captured cs = map Some [C_initialize 0 4 4 False, C_Fill 0 red, C_Fill 0 blue]"
    "mmBeginFrame s (gpu s @ [MM_BeginFrame]) = None"
    by (simp_all add: s_def cs_def start_def)
  have r: "runAll t [C_initialize 0 4 4 False, C_Fill 0 red, C_Fill 0 blue] =
             (None, Fill (Fill (initialize t 0 4 4 False) 0 red) 0 blue)"
    by simp
  have n: "\<not> needsToDelayCommands (initialize t 0 4 4 False)"
    by (simp add: t_def initialize_def tryAddDelayedCommand_def Let_def setImage_def call_def)
  have c: "fillColor (heap (Fill (Fill (initialize t 0 4 4 False) 0 red) 0 blue) 0) = blue"
    using Fill_last [OF n, of 0 "[red]" blue] by (simp add: setImage_def)
  have z: "heap s 0 = zeroImage" by (simp add: s_def start_def)
  note T = deferred_calls_replayed [OF h refl t_def, of "[A_Fill 0 red]"]
  have bf: "BeginFrame (foldl step s cs) =
              (None, Fill (Fill (initialize t 0 4 4 False) 0 red) 0 blue)"
    using T r by simp
  have fl: "flushed (foldl step (snd (BeginFrame (foldl step s cs))) [A_Fill 0 red])"
    using T by blast
  show ?thesis
    unfolding s_def [symmetric] cs_def [symmetric]
    using T bf fl c z by auto
qed

text \<open>
  C3 (as stated) fails in two places. When the resource refuses the first
  \<open>BeginFrame\<close>, the error is returned before the flush: the captured calls are
  still queued, none has run and deferral is still on. And a \<open>DrawImage\<close> onto its
  own source before the first frame panics instead of being captured.
\<close>

theorem first_BeginFrame_counterexample:
  "fst (BeginFrame (foldl step (start (\<lambda>_. Inr []) (\<lambda>_. Some ''context lost''))
          [A_initialize 0 4 4 False, A_Fill 0 red])) = Some (Err ''context lost'') \<and>
   delayedCommands (snd (BeginFrame (foldl step (start (\<lambda>_. Inr []) (\<lambda>_. Some ''context lost''))
          [A_initialize 0 4 4 False, A_Fill 0 red]))) = [C_initialize 0 4 4 False, C_Fill 0 red] \<and>
   heap (snd (BeginFrame (foldl step (start (\<lambda>_. Inr []) (\<lambda>_. Some ''context lost''))
          [A_initialize 0 4 4 False, A_Fill 0 red]))) 0 = zeroImage \<and>
   needsToDelayCommands (snd (BeginFrame (foldl step (start (\<lambda>_. Inr []) (\<lambda>_. Some ''context lost''))
          [A_initialize 0 4 4 False, A_Fill 0 red]))) \<and>
   delayedCommands (snd (perform (start (\<lambda>_. Inr []) (\<lambda>_. Some ''context lost''))
          (A_DrawImage 0 (Some 0) 7))) = [] \<and>
   fst (perform (start (\<lambda>_. Inr []) (\<lambda>_. Some ''context lost'')) (A_DrawImage 0 (Some 0) 7)) =
     Some (Panic ''buffered: Image.DrawImage: src must be different from the receiver'')"
  by (simp add: step_def start_def initialize_def Fill_def tryAddDelayedCommand_def
      BeginFrame_def call_def Let_def DrawImage_def)

subsection \<open>The partial path of \<open>ReplacePixels\<close>\<close>


lemma ReplacePixels_partial:
  assumes "\<not> needsToDelayCommands s" "int (length pix) = int64 (4 * w * h)"
    "\<not> (x = 0 \<and> y = 0 \<and> w = width (heap s i) \<and> h = height (heap s i))"
  shows "ReplacePixels s i pix x y w h =
           (let s1 = resolvePendingFill s i
            in case pixels (heap s1 i) of
                 Some _ \<Rightarrow> replacePendingPixels s1 i pix x y w h
               | None \<Rightarrow>
                   (let s2 = call s1 (MM_Pixels (img (heap s1 i)) 0 0
                                        (width (heap s1 i)) (height (heap s1 i)))
                    in case mmPixels s2 (gpu s2) of
                         Inl err \<Rightarrow> (Some (Err err), s2)
                       | Inr p \<Rightarrow>
                           replacePendingPixels
                             (setImage s2 i ((heap s2 i)\<lparr>pixels := Some p\<rparr>)) i pix x y w h))"
proof -
  have e: "(x = 0 \<and> y = 0 \<and> w = width (heap s i) \<and> h = height (heap s i)) = False"
    using assms(3) by simp
  show ?thesis
    unfolding ReplacePixels_def using assms(1,2) by (simp add: tryAddDelayedCommand_def e)
qed





subsection \<open>The length of what \<open>Pixels\<close> returns\<close>

lemma length_copy_to: "fst win + snd win \<le> length d \<Longrightarrow> length (copy_to d win src) = length d"
  by (auto simp: copy_to_def Let_def min_def)

lemma slice_bounds_window: "slice_bounds s a b = Inr win \<Longrightarrow> fst win + snd win \<le> length s"
  by (auto simp: slice_bounds_def split: if_splits)

lemma length_Pixels_fill: "length (Pixels_fill c k pix) = length pix"
proof (induction c k pix rule: Pixels_fill.induct)
  case (1 c k pix)
  show ?case using "1.IH" by (subst Pixels_fill.simps) simp
qed

lemma length_Pixels_rows:
  "Pixels_rows p iw x y w h j pix = Inr buf \<Longrightarrow> length buf = length pix"
proof (induction p iw x y w h j pix rule: Pixels_rows.induct)
  case (1 p iw x y w h j pix)
  show ?case
  proof (cases "j < h")
    case False
    then show ?thesis using "1.prems" by (subst (asm) Pixels_rows.simps) simp
  next
    case True
    obtain dst where d: "slice_bounds pix (int64 (4 * j * w)) (int64 (4 * (j + 1) * w)) = Inr dst"
      using "1.prems" True by (subst (asm) Pixels_rows.simps) (auto split: sum.splits)
    obtain src where s: "slice_from p (int64 (4 * ((j + y) * iw + x))) = Inr src"
      using "1.prems" True d by (subst (asm) Pixels_rows.simps) (auto split: sum.splits)
    have r: "Pixels_rows p iw x y w h (j + 1) (copy_to pix dst (drop (fst src) p)) = Inr buf"
      using "1.prems" True d s by (subst (asm) Pixels_rows.simps) simp
    have "length buf = length (copy_to pix dst (drop (fst src) p))"
      by (rule "1.IH" [OF True d s r])
    then show ?thesis using length_copy_to [OF slice_bounds_window [OF d]] by simp
  qed
qed

lemma Pixels_length:
  assumes "Pixels s i x y w h = (Inr buf, s1)"
  shows "int (length buf) = int64 (4 * w * h)"
proof -
  have nd: "\<not> needsToDelayCommands s"
    using assms by (auto simp: Pixels_def checkDelayedCommandsFlushed_def split: if_splits)
  have inn: "In (Rect x y (int64 (x + w)) (int64 (y + h))) (Rect 0 0 (width (heap s i)) (height (heap s i)))"
    using assms nd by (auto simp: Pixels_def checkDelayedCommandsFlushed_def split: if_splits)
  obtain pix where mk: "make_bytes (int64 (4 * w * h)) = Inr pix"
    using assms nd inn by (auto simp: Pixels_def checkDelayedCommandsFlushed_def split: sum.splits)
  have lp: "int (length pix) = int64 (4 * w * h)"
    using mk by (auto simp: make_bytes_def split: if_splits)
  have "length buf = length pix"
    using assms nd inn mk length_Pixels_rows
    by (auto simp: Pixels_def checkDelayedCommandsFlushed_def Let_def length_Pixels_fill
        split: if_splits option.splits sum.splits)
  then show ?thesis using lp by simp
qed

subsection \<open>Errors of the resource\<close>

text \<open>The loops and the slice expressions panic; they never return an error value.\<close>

lemma slice_bounds_no_Err: "slice_bounds s a b \<noteq> Inl (Err e)"
  by (simp add: slice_bounds_def)

lemma Pixels_rows_no_Err: "Pixels_rows p iw x y w h j pix \<noteq> Inl (Err e)"
proof (induction p iw x y w h j pix rule: Pixels_rows.induct)
  case (1 p iw x y w h j pix)
  show ?case
    using "1.IH"
    by (subst Pixels_rows.simps) (auto simp: slice_from_def slice_bounds_no_Err split: sum.splits)
qed

lemma replacePendingPixels_rows_no_Err:
  "fst (replacePendingPixels_rows pix iw x y w h j p) \<noteq> Some (Err e)"
proof (induction pix iw x y w h j p rule: replacePendingPixels_rows.induct)
  case (1 pix iw x y w h j p)
  show ?case
    using "1.IH"
    by (subst replacePendingPixels_rows.simps)
       (auto simp: slice_from_def slice_bounds_no_Err split: sum.splits)
qed

lemma replacePendingPixels_no_Err:
  "replacePendingPixels s i pix x y w h \<noteq> (Some (Err e), s')"
proof
  assume a: "replacePendingPixels s i pix x y w h = (Some (Err e), s')"
  obtain r p' where rows:
    "replacePendingPixels_rows pix (width (heap s i)) x y w h 0
       (case pixels (heap s i) of None \<Rightarrow> [] | Some p \<Rightarrow> p) = (r, p')"
    by (cases "replacePendingPixels_rows pix (width (heap s i)) x y w h 0
                 (case pixels (heap s i) of None \<Rightarrow> [] | Some p \<Rightarrow> p)")
  have "r \<noteq> Some (Err e)"
    using replacePendingPixels_rows_no_Err
      [of pix "width (heap s i)" x y w h 0 "case pixels (heap s i) of None \<Rightarrow> [] | Some p \<Rightarrow> p" e]
    unfolding rows by simp
  then show False using a unfolding replacePendingPixels_def rows by (cases r) auto
qed

text \<open>An error of \<open>Pixels\<close> is the range error or the error of the read-back.\<close>

lemma Pixels_Err:
  assumes "Pixels s i x y w h = (Inl (Err e), s')"
  shows "heap s' = heap s \<and> mmPixels s' = mmPixels s \<and>
         needsToDelayCommands s' = needsToDelayCommands s \<and>
         ((e = ''buffered: out of range'' \<and> s' = s) \<or>
          (mmPixels s (gpu s') = Inl e \<and>
           gpu s' = gpu s @ [MM_Pixels (img (heap s i)) 0 0 (width (heap s i)) (height (heap s i))]))"
proof (cases "needsToDelayCommands s")
  case True
  then show ?thesis using assms
    by (simp add: Pixels_def checkDelayedCommandsFlushed_def)
next
  case nd: False
  show ?thesis
  proof (cases "In (Rect x y (int64 (x + w)) (int64 (y + h))) (Rect 0 0 (width (heap s i)) (height (heap s i)))")
  case out: False
  then show ?thesis using assms nd
    by (auto simp: Pixels_def checkDelayedCommandsFlushed_def)
next
  case True
  then have False: "\<not> (needsToDelayCommands s \<or>
    \<not> In (Rect x y (int64 (x + w)) (int64 (y + h))) (Rect 0 0 (width (heap s i)) (height (heap s i))))"
    using nd by simp
  show ?thesis
  proof (cases "make_bytes (int64 (4 * w * h))")
    case (Inl a)
    then show ?thesis using assms False
      by (auto simp: Pixels_def checkDelayedCommandsFlushed_def make_bytes_def split: if_splits)
  next
    case (Inr pix)
    show ?thesis
    proof (cases "hasFill (heap s i)")
      case True
      then show ?thesis using assms False Inr
        by (auto simp: Pixels_def checkDelayedCommandsFlushed_def)
    next
      case nofill: False
      show ?thesis
      proof (cases "pixels (heap s i)")
        case (Some p)
        then show ?thesis using assms False Inr nofill Pixels_rows_no_Err
          by (auto simp: Pixels_def checkDelayedCommandsFlushed_def)
      next
        case None
        then show ?thesis using assms False Inr nofill Pixels_rows_no_Err
          by (auto simp: Pixels_def checkDelayedCommandsFlushed_def Let_def call_def setImage_def
              split: sum.splits)
      qed
    qed
  qed
qed
qed

text \<open>
  An error of \<open>ReplacePixels\<close> is the error of the read-back; the image is as before
  but for its fill flag, which is off.
\<close>

lemma ReplacePixels_Err:
  assumes "ReplacePixels s i pix x y w h = (Some (Err e), s')"
  shows "mmPixels s (gpu s') = Inl e \<and> mmPixels s' = mmPixels s \<and>
         needsToDelayCommands s' = needsToDelayCommands s \<and>
         heap s' = (heap s)(i := (heap s i)\<lparr>hasFill := False\<rparr>)"
proof (cases "int (length pix) \<noteq> int64 (4 * w * h) \<or> needsToDelayCommands s")
  case True
  then show ?thesis using assms
    by (auto simp: ReplacePixels_def tryAddDelayedCommand_def split: if_splits)
next
  case False
  show ?thesis
  proof (cases "x = 0 \<and> y = 0 \<and> w = width (heap s i) \<and> h = height (heap s i)")
    case True
    then show ?thesis using assms False
      by (auto simp: ReplacePixels_def tryAddDelayedCommand_def Let_def)
  next
    case partial: False
    have n: "\<not> needsToDelayCommands s" and l: "int (length pix) = int64 (4 * w * h)"
      using False by auto
    note R = ReplacePixels_partial [OF n l partial]
    define s1 where "s1 = resolvePendingFill s i"
    have h1: "heap s1 = (heap s)(i := (heap s i)\<lparr>hasFill := False\<rparr>)"
      and m1: "mmPixels s1 = mmPixels s" and d1: "needsToDelayCommands s1 = needsToDelayCommands s"
      unfolding s1_def
      by (auto simp: resolvePendingFill_def Let_def setImage_def call_def fun_eq_iff)
    show ?thesis
    proof (cases "pixels (heap s1 i)")
      case (Some p)
      then show ?thesis using assms replacePendingPixels_no_Err unfolding R
        by (simp add: Let_def s1_def [symmetric])
    next
      case None
      define s2 where
        "s2 = call s1 (MM_Pixels (img (heap s1 i)) 0 0 (width (heap s1 i)) (height (heap s1 i)))"
      have h2: "heap s2 = heap s1" "mmPixels s2 = mmPixels s"
        "needsToDelayCommands s2 = needsToDelayCommands s"
        unfolding s2_def using m1 d1 by (simp_all add: call_def)
      show ?thesis
      proof (cases "mmPixels s2 (gpu s2)")
        case (Inl err)
        then have "ReplacePixels s i pix x y w h = (Some (Err err), s2)"
          using None unfolding R by (simp add: Let_def s1_def [symmetric] s2_def [symmetric])
        then show ?thesis using assms Inl h1 h2 by auto
      next
        case (Inr p)
        then show ?thesis using assms None replacePendingPixels_no_Err unfolding R
          by (simp add: Let_def s1_def [symmetric] s2_def [symmetric])
      qed
    qed
  qed
qed

text \<open>\<open>Pixels\<close> changes no image, except that it may cache the read-back buffer.\<close>

lemma Pixels_heap:
  assumes "Pixels s i x y w h = (r, s')"
  shows "mmPixels s' = mmPixels s \<and> needsToDelayCommands s' = needsToDelayCommands s \<and>
         (heap s' = heap s \<or>
          (pixels (heap s i) = None \<and> (\<exists>p. heap s' = (heap s)(i := (heap s i)\<lparr>pixels := Some p\<rparr>))))"
  using assms
  by (auto simp: Pixels_def checkDelayedCommandsFlushed_def Let_def call_def setImage_def
      split: if_splits sum.splits option.splits)

lemma CopyPixels_Err:
  assumes "CopyPixels s i src x y w h = (Some (Err e), s')"
  shows "(e = ''buffered: out of range'' \<or> mmPixels s (gpu s') = Inl e) \<and>
         (\<forall>r. fillColor (heap s' r) = fillColor (heap s r) \<and>
              needsToResolvePixels (heap s' r) = needsToResolvePixels (heap s r) \<and>
              (hasFill (heap s' r) = hasFill (heap s r) \<or> (r = i \<and> \<not> hasFill (heap s' r))) \<and>
              (pixels (heap s' r) = pixels (heap s r) \<or>
               (r = src \<and> pixels (heap s r) = None)))"
proof (cases "needsToDelayCommands s")
  case True
  then show ?thesis using assms by (simp add: CopyPixels_def tryAddDelayedCommand_def)
next
  case False
  obtain r1 s1 where p: "Pixels s src x y w h = (r1, s1)" by (cases "Pixels s src x y w h")
  show ?thesis
  proof (cases r1)
    case (Inl e1)
    then have "Pixels s src x y w h = (Inl (Err e), s')"
      using assms False p by (simp add: CopyPixels_def tryAddDelayedCommand_def)
    from Pixels_Err [OF this] show ?thesis by auto
  next
    case (Inr pix)
    then have rp: "ReplacePixels s1 i pix 0 0 w h = (Some (Err e), s')"
      using assms False p by (simp add: CopyPixels_def tryAddDelayedCommand_def)
    note R = ReplacePixels_Err [OF rp]
    note P = Pixels_heap [OF p]
    have m: "mmPixels s (gpu s') = Inl e" using R P by simp
    have hs': "heap s' = (heap s1)(i := (heap s1 i)\<lparr>hasFill := False\<rparr>)" using R by simp
    consider "heap s1 = heap s"
      | p0 where "pixels (heap s src) = None" "heap s1 = (heap s)(src := (heap s src)\<lparr>pixels := Some p0\<rparr>)"
      using P by blast
    then show ?thesis
    proof cases
      case 1
      show ?thesis using m unfolding hs' 1 by auto
    next
      case 2
      show ?thesis using m 2(1) unfolding hs' 2(2) by auto
    qed
  qed
qed

lemma lost4_eq:
  "lost4 =
     \<lparr>heap = (\<lambda>_. zeroImage)(0 := zeroImage\<lparr>img := Some 1, width := 4, height := 4\<rparr>),
      gpu = [MM_BeginFrame, MM_New 1 4 4 False],
      mmPixels = (\<lambda>_. Inl ''context lost''), mmBeginFrame = (\<lambda>_. None),
      needsToDelayCommands = False, delayedCommands = []\<rparr>"
  by (simp add: lost4_def BeginFrame_def flushDelayedCommands_def initialize_def start_def
      tryAddDelayedCommand_def call_def setImage_def Let_def)

lemma Fill_lost4:
  "Fill lost4 0 c =
     \<lparr>heap = (\<lambda>_. zeroImage)(0 := zeroImage\<lparr>img := Some 1, width := 4, height := 4,
                                                fillColor := c, hasFill := True\<rparr>),
      gpu = [MM_BeginFrame, MM_New 1 4 4 False],
      mmPixels = (\<lambda>_. Inl ''context lost''), mmBeginFrame = (\<lambda>_. None),
      needsToDelayCommands = False, delayedCommands = []\<rparr>"
  by (simp add: Fill_active lost4_eq) (simp add: setImage_def zeroImage_def)

lemma Pixels_readback_fails:
  assumes "\<not> needsToDelayCommands s" "prior s i = Inl e" "\<not> hasFill (heap s i)"
    "In (Rect x y (int64 (x + w)) (int64 (y + h))) (Rect 0 0 (width (heap s i)) (height (heap s i)))"
    "0 \<le> int64 (4 * w * h)" "int64 (4 * w * h) \<le> maxAlloc"
  shows "Pixels s i x y w h = (Inl (Err e), s\<lparr>gpu := gpu s @ first_calls s i\<rparr>)"
proof -
  have n: "pixels (heap s i) = None"
    using assms(2) by (cases "pixels (heap s i)") (simp_all add: prior_def)
  have fc: "first_calls s i = [MM_Pixels (img (heap s i)) 0 0 (width (heap s i)) (height (heap s i))]"
    using n assms(3) by (simp add: first_calls_def)
  have rd: "mmPixels s (gpu s @ [MM_Pixels (img (heap s i)) 0 0 (width (heap s i)) (height (heap s i))]) = Inl e"
    using assms(2) n fc by (simp add: prior_def)
  have mk: "make_bytes (int64 (4 * w * h)) = Inr (replicate (nat (int64 (4 * w * h))) 0)"
    using assms(5,6) by (simp add: make_bytes_def)
  show ?thesis
    using assms(1,3,4) n rd mk
    by (simp add: Pixels_def checkDelayedCommandsFlushed_def call_def Let_def fc)
qed

lemma ReplacePixels_readback_fails:
  assumes "\<not> needsToDelayCommands s" "prior s i = Inl e"
    "int (length pix) = int64 (4 * w * h)"
    "\<not> (x = 0 \<and> y = 0 \<and> w = width (heap s i) \<and> h = height (heap s i))"
  shows "ReplacePixels s i pix x y w h =
           (Some (Err e), setImage (s\<lparr>gpu := gpu s @ first_calls s i\<rparr>) i ((heap s i)\<lparr>hasFill := False\<rparr>))"
proof -
  have n: "pixels (heap s i) = None"
    using assms(2) by (cases "pixels (heap s i)") (simp_all add: prior_def)
  have rd: "mmPixels s (gpu s @ first_calls s i) = Inl e"
    using assms(2) n by (simp add: prior_def)
  note R = ReplacePixels_partial [OF assms(1,3,4)]
  show ?thesis
  proof (cases "hasFill (heap s i)")
    case True
    then show ?thesis
      unfolding R using n rd
      by (simp add: resolvePendingFill_def Let_def setImage_def call_def first_calls_def)
  next
    case False
    then show ?thesis
      unfolding R using n rd
      by (simp add: resolvePendingFill_def Let_def setImage_def call_def first_calls_def
          hasFill_update_id)
  qed
qed

lemma CopyPixels_readback_fails:
  assumes "Pixels s src x y w h = (Inr buf, s1)" "prior s1 i = Inl e"
    "\<not> (w = width (heap s1 i) \<and> h = height (heap s1 i))"
  shows "CopyPixels s i src x y w h =
           (Some (Err e),
            setImage (s1\<lparr>gpu := gpu s1 @ first_calls s1 i\<rparr>) i ((heap s1 i)\<lparr>hasFill := False\<rparr>))"
proof -
  have nd: "\<not> needsToDelayCommands s"
    using assms(1) by (auto simp: Pixels_def checkDelayedCommandsFlushed_def split: if_splits)
  have nd1: "\<not> needsToDelayCommands s1" using Pixels_heap [OF assms(1)] nd by simp
  have part: "\<not> ((0::int) = 0 \<and> (0::int) = 0 \<and> w = width (heap s1 i) \<and> h = height (heap s1 i))"
    using assms(3) by simp
  have "ReplacePixels s1 i buf 0 0 w h =
          (Some (Err e),
           setImage (s1\<lparr>gpu := gpu s1 @ first_calls s1 i\<rparr>) i ((heap s1 i)\<lparr>hasFill := False\<rparr>))"
    by (rule ReplacePixels_readback_fails [OF nd1 assms(2) Pixels_length [OF assms(1)] part])
  then show ?thesis using nd assms(1) by (simp add: CopyPixels_def tryAddDelayedCommand_def)
qed

text \<open>
  C9 (amended). In a frame. Let the read-back of image \<open>i\<close> fail with \<open>e\<close>: no
  buffer is cached and the resource answers the read-back with the error \<open>e\<close>
  (\<open>prior s i = Inl e\<close>). Then \<open>Pixels\<close> of \<open>i\<close>, when no fill is pending and
  the range check and the allocation pass, returns \<open>e\<close>, and so does a
  \<open>CopyPixels\<close> that reads from \<open>i\<close>; a partial \<open>ReplacePixels\<close> on \<open>i\<close>
  returns \<open>e\<close>; and a \<open>CopyPixels\<close> whose read succeeded returns the error of the
  read-back of its destination. In each case the state after the call is the state before
  it with the resource calls appended, except that a failed write has switched the fill
  flag of its destination off (the fill has been pushed). Conversely, an error that one of
  the three returns is the range error of \<open>Pixels\<close> or the very error of the failed
  read-back: after a failed \<open>Pixels\<close> every image is as before; after a failed
  \<open>ReplacePixels\<close> the image is as before except that its fill flag is off; after a
  failed \<open>CopyPixels\<close> fill colours and resolve flags are as before, only the
  destination's fill flag may have gone off, and only a source without a buffer may have
  cached one.
\<close>

theorem resource_error_returned:
  "(\<not> needsToDelayCommands s \<and> prior s i = Inl e \<and> \<not> hasFill (heap s i) \<and>
    In (Rect x y (int64 (x + w)) (int64 (y + h))) (Rect 0 0 (width (heap s i)) (height (heap s i))) \<and>
    0 \<le> int64 (4 * w * h) \<and> int64 (4 * w * h) \<le> maxAlloc \<longrightarrow>
      Pixels s i x y w h = (Inl (Err e), s\<lparr>gpu := gpu s @ first_calls s i\<rparr>) \<and>
      CopyPixels s d i x y w h = (Some (Err e), s\<lparr>gpu := gpu s @ first_calls s i\<rparr>)) \<and>
   (\<not> needsToDelayCommands s \<and> prior s i = Inl e \<and> int (length pix) = int64 (4 * w * h) \<and>
    \<not> (x = 0 \<and> y = 0 \<and> w = width (heap s i) \<and> h = height (heap s i)) \<longrightarrow>
      ReplacePixels s i pix x y w h =
        (Some (Err e),
         setImage (s\<lparr>gpu := gpu s @ first_calls s i\<rparr>) i ((heap s i)\<lparr>hasFill := False\<rparr>))) \<and>
   (Pixels s src x y w h = (Inr buf, s1) \<and> prior s1 i = Inl e \<and>
    \<not> (w = width (heap s1 i) \<and> h = height (heap s1 i)) \<longrightarrow>
      CopyPixels s i src x y w h =
        (Some (Err e),
         setImage (s1\<lparr>gpu := gpu s1 @ first_calls s1 i\<rparr>) i ((heap s1 i)\<lparr>hasFill := False\<rparr>))) \<and>
   (Pixels s i x y w h = (Inl (Err e), s') \<longrightarrow>
      (e = ''buffered: out of range'' \<or> mmPixels s (gpu s') = Inl e) \<and> heap s' = heap s) \<and>
   (ReplacePixels s i pix x y w h = (Some (Err e), s') \<longrightarrow>
      mmPixels s (gpu s') = Inl e \<and> heap s' = (heap s)(i := (heap s i)\<lparr>hasFill := False\<rparr>)) \<and>
   (CopyPixels s i src x y w h = (Some (Err e), s') \<longrightarrow>
      (e = ''buffered: out of range'' \<or> mmPixels s (gpu s') = Inl e) \<and>
      (\<forall>r. fillColor (heap s' r) = fillColor (heap s r) \<and>
           needsToResolvePixels (heap s' r) = needsToResolvePixels (heap s r) \<and>
           (hasFill (heap s' r) = hasFill (heap s r) \<or> (r = i \<and> \<not> hasFill (heap s' r))) \<and>
           (pixels (heap s' r) = pixels (heap s r) \<or> (r = src \<and> pixels (heap s r) = None))))"
proof (intro conjI impI)
  assume a: "\<not> needsToDelayCommands s \<and> prior s i = Inl e \<and> \<not> hasFill (heap s i) \<and>
    In (Rect x y (int64 (x + w)) (int64 (y + h))) (Rect 0 0 (width (heap s i)) (height (heap s i))) \<and>
    0 \<le> int64 (4 * w * h) \<and> int64 (4 * w * h) \<le> maxAlloc"
  then show p: "Pixels s i x y w h = (Inl (Err e), s\<lparr>gpu := gpu s @ first_calls s i\<rparr>)"
    by (intro Pixels_readback_fails) simp_all
  show "CopyPixels s d i x y w h = (Some (Err e), s\<lparr>gpu := gpu s @ first_calls s i\<rparr>)"
    using a p by (simp add: CopyPixels_def tryAddDelayedCommand_def)
next
  assume "\<not> needsToDelayCommands s \<and> prior s i = Inl e \<and> int (length pix) = int64 (4 * w * h) \<and>
    \<not> (x = 0 \<and> y = 0 \<and> w = width (heap s i) \<and> h = height (heap s i))"
  then show "ReplacePixels s i pix x y w h =
        (Some (Err e),
         setImage (s\<lparr>gpu := gpu s @ first_calls s i\<rparr>) i ((heap s i)\<lparr>hasFill := False\<rparr>))"
    by (intro ReplacePixels_readback_fails) simp_all
next
  assume "Pixels s src x y w h = (Inr buf, s1) \<and> prior s1 i = Inl e \<and>
    \<not> (w = width (heap s1 i) \<and> h = height (heap s1 i))"
  then show "CopyPixels s i src x y w h =
        (Some (Err e),
         setImage (s1\<lparr>gpu := gpu s1 @ first_calls s1 i\<rparr>) i ((heap s1 i)\<lparr>hasFill := False\<rparr>))"
    by (intro CopyPixels_readback_fails) simp_all
next
  assume "Pixels s i x y w h = (Inl (Err e), s')"
  from Pixels_Err [OF this]
  show "e = ''buffered: out of range'' \<or> mmPixels s (gpu s') = Inl e" "heap s' = heap s"
    by auto
next
  assume "ReplacePixels s i pix x y w h = (Some (Err e), s')"
  from ReplacePixels_Err [OF this]
  show "mmPixels s (gpu s') = Inl e" "heap s' = (heap s)(i := (heap s i)\<lparr>hasFill := False\<rparr>)"
    by auto
next
  assume "CopyPixels s i src x y w h = (Some (Err e), s')"
  from CopyPixels_Err [OF this]
  show "e = ''buffered: out of range'' \<or> mmPixels s (gpu s') = Inl e"
    "\<forall>r. fillColor (heap s' r) = fillColor (heap s r) \<and>
         needsToResolvePixels (heap s' r) = needsToResolvePixels (heap s r) \<and>
         (hasFill (heap s' r) = hasFill (heap s r) \<or> (r = i \<and> \<not> hasFill (heap s' r))) \<and>
         (pixels (heap s' r) = pixels (heap s r) \<or> (r = src \<and> pixels (heap s r) = None))"
    by blast+
qed

lemma lost4_prior:
  "\<not> needsToDelayCommands lost4" "prior lost4 0 = Inl ''context lost''" "\<not> hasFill (heap lost4 0)"
  "first_calls lost4 0 = [MM_Pixels (Some 1) 0 0 4 4]"
  "In (Rect 0 0 (int64 (0 + 4)) (int64 (0 + 4))) (Rect 0 0 (width (heap lost4 0)) (height (heap lost4 0)))"
  "0 \<le> int64 (4 * 4 * 4)" "int64 (4 * 4 * 4) \<le> maxAlloc"
  by (simp_all add: lost4_eq prior_def first_calls_def zeroImage_def In_def Rect_def Empty_def
      int64_def maxAlloc_def heapAddrBits_def)

lemma red4_prior:
  "\<not> needsToDelayCommands (Fill lost4 0 red)" "prior (Fill lost4 0 red) 0 = Inl ''context lost''"
  "first_calls (Fill lost4 0 red) 0 = [MM_Fill (Some 1) red, MM_Pixels (Some 1) 0 0 4 4]"
  "int (length (replicate 4 (7 :: byte))) = int64 (4 * 1 * 1)"
  "\<not> ((1::int) = 0 \<and> (1::int) = 0 \<and> 1 = width (heap (Fill lost4 0 red) 0) \<and>
      1 = height (heap (Fill lost4 0 red) 0))"
  "hasFill (heap (Fill lost4 0 red) 0)"
  by (simp_all add: Fill_lost4 prior_def first_calls_def zeroImage_def int64_def)

lemma lost4_write:
  "ReplacePixels (Fill lost4 0 red) 0 (replicate 4 7) 1 1 1 1 =
     (Some (Err ''context lost''),
      call (resolvePendingFill (Fill lost4 0 red) 0) (MM_Pixels (Some 1) 0 0 4 4))"
  by (simp add: Fill_lost4 ReplacePixels_def tryAddDelayedCommand_def int64_def
      resolvePendingFill_def call_def setImage_def zeroImage_def Let_def)

theorem resource_error_returned_witness:
  "Pixels lost4 0 0 0 4 4 =
     (Inl (Err ''context lost''), lost4\<lparr>gpu := gpu lost4 @ [MM_Pixels (Some 1) 0 0 4 4]\<rparr>) \<and>
   CopyPixels lost4 5 0 0 0 4 4 =
     (Some (Err ''context lost''), lost4\<lparr>gpu := gpu lost4 @ [MM_Pixels (Some 1) 0 0 4 4]\<rparr>) \<and>
   ReplacePixels (Fill lost4 0 red) 0 (replicate 4 7) 1 1 1 1 =
     (Some (Err ''context lost''),
      setImage ((Fill lost4 0 red)
                  \<lparr>gpu := gpu (Fill lost4 0 red) @ [MM_Fill (Some 1) red, MM_Pixels (Some 1) 0 0 4 4]\<rparr>)
        0 ((heap (Fill lost4 0 red) 0)\<lparr>hasFill := False\<rparr>)) \<and>
   \<not> needsToDelayCommands lost4 \<and> prior lost4 0 = Inl ''context lost'' \<and>
   prior (Fill lost4 0 red) 0 = Inl ''context lost''"
proof -
  have hA: "\<not> needsToDelayCommands lost4 \<and> prior lost4 0 = Inl ''context lost'' \<and>
    \<not> hasFill (heap lost4 0) \<and>
    In (Rect 0 0 (int64 (0 + 4)) (int64 (0 + 4)))
       (Rect 0 0 (width (heap lost4 0)) (height (heap lost4 0))) \<and>
    0 \<le> int64 (4 * 4 * 4) \<and> int64 (4 * 4 * 4) \<le> maxAlloc"
    by (intro conjI) (rule lost4_prior)+
  have hB: "\<not> needsToDelayCommands (Fill lost4 0 red) \<and>
    prior (Fill lost4 0 red) 0 = Inl ''context lost'' \<and>
    int (length (replicate 4 (7 :: byte))) = int64 (4 * 1 * 1) \<and>
    \<not> ((1::int) = 0 \<and> (1::int) = 0 \<and> 1 = width (heap (Fill lost4 0 red) 0) \<and>
        1 = height (heap (Fill lost4 0 red) 0))"
    by (intro conjI) (rule red4_prior)+
  note A = resource_error_returned
    [where s = lost4 and i = 0 and e = "''context lost''" and x = 0 and y = 0 and w = 4 and h = 4
       and d = 5, THEN conjunct1, THEN mp, OF hA, unfolded lost4_prior(4)]
  note B = resource_error_returned
    [where s = "Fill lost4 0 red" and i = 0 and e = "''context lost''" and x = 1 and y = 1
       and w = 1 and h = 1 and pix = "replicate 4 7", THEN conjunct2, THEN conjunct1, THEN mp,
     OF hB, unfolded red4_prior(3)]
  show ?thesis
    by (intro conjI) (rule A [THEN conjunct1] A [THEN conjunct2] B lost4_prior(1,2) red4_prior(2))+
qed

text \<open>
  C9 (as stated) fails for \<open>ReplacePixels\<close>: a partial write onto a pending fill
  whose read-back fails returns the error, and the fill is no longer pending.
\<close>

theorem failed_write_clears_fill_counterexample:
  "hasFill (heap (Fill lost4 0 red) 0) \<and>
   fst (ReplacePixels (Fill lost4 0 red) 0 (replicate 4 7) 1 1 1 1) = Some (Err ''context lost'') \<and>
   \<not> hasFill (heap (snd (ReplacePixels (Fill lost4 0 red) 0 (replicate 4 7) 1 1 1 1)) 0)"
  by (simp add: lost4_write) (simp add: Fill_lost4 resolvePendingFill_def call_def setImage_def Let_def)

subsection \<open>Round trip of a full write\<close>

lemma full_rows_from:
  assumes "0 \<le> iw" "length q = nat (4 * iw * ih)" "0 \<le> j" "j \<le> ih"
  shows "concat (map (region_row q iw 0 0 iw) [j..ih - 1]) = drop (nat (4 * j * iw)) q"
  using assms(3,4)
proof (induction "nat (ih - j)" arbitrary: j)
  case 0
  then have "j = ih" by simp
  then show ?case using assms(2) by (simp add: mult.commute mult.left_commute)
next
  case (Suc n)
  then have lt: "j < ih" by linarith
  then have up: "[j..ih - 1] = j # [j + 1..ih - 1]" by (simp add: upto_rec1)
  have IH: "concat (map (region_row q iw 0 0 iw) [j + 1..ih - 1]) = drop (nat (4 * (j + 1) * iw)) q"
    using Suc.hyps(1) [of "j + 1"] Suc.hyps(2) Suc.prems lt by auto
  define a where "a = nat (4 * j * iw)"
  define m where "m = nat (4 * iw)"
  have rr: "region_row q iw 0 0 iw j = take m (drop a q)"
    unfolding region_row_def a_def m_def by (simp add: algebra_simps)
  have ai: "nat (4 * (j + 1) * iw) = m + a"
    unfolding a_def m_def using assms(1) Suc.prems
    by (simp add: algebra_simps nat_add_distrib)
  have "take m (drop a q) @ drop (m + a) q = drop a q"
    by (metis append_take_drop_id drop_drop)
  then show ?case unfolding up using IH rr ai a_def by simp
qed

lemma full_rows_concat:
  assumes "0 \<le> iw" "0 \<le> ih" "length q = nat (4 * iw * ih)"
  shows "concat (map (region_row q iw 0 0 iw) [0..ih - 1]) = q"
  using full_rows_from [OF assms(1,3) _ assms(2)] by simp

lemma ReplacePixels_full:
  assumes "\<not> needsToDelayCommands s" "int (length pix) = int64 (4 * width (heap s i) * height (heap s i))"
  shows "ReplacePixels s i pix 0 0 (width (heap s i)) (height (heap s i)) =
           (None, setImage s i ((heap s i)\<lparr>hasFill := False, pixels := Some pix,
                                            needsToResolvePixels := True\<rparr>))"
  using assms
  by (simp add: ReplacePixels_def tryAddDelayedCommand_def invalidatePendingPixels_def
      setImage_def Let_def)

text \<open>
  C2. In a frame, a full-region \<open>ReplacePixels\<close> of a buffer of \<open>4 * w * h\<close> bytes
  returns \<open>nil\<close> and calls the resource not at all; the \<open>Pixels\<close> of the full
  region that follows returns exactly the buffer, again without any call of the resource.
\<close>

theorem full_write_read_roundtrip:
  assumes "\<not> needsToDelayCommands s" "dims_ok (heap s i)"
    "int (length buf) = 4 * width (heap s i) * height (heap s i)"
    "ReplacePixels s i buf 0 0 (width (heap s i)) (height (heap s i)) = (r, s1)"
    "Pixels s1 i 0 0 (width (heap s i)) (height (heap s i)) = (res, s2)"
  shows "r = None \<and> res = Inr buf \<and> gpu s1 = gpu s \<and> gpu s2 = gpu s"
proof -
  define W where "W = width (heap s i)"
  define H where "H = height (heap s i)"
  have d: "0 \<le> W" "0 \<le> H" "4 * W * H < 2 ^ 63"
    using assms(2) unfolding dims_ok_def W_def H_def by auto
  have nn: "0 \<le> 4 * W * H" using d by simp
  have i64: "int64 (4 * W * H) = 4 * W * H"
    by (rule int64_id, rule is_int_between [OF nn _ d(3)]) simp
  have lb: "length buf = nat (4 * W * H)" using assms(3) unfolding W_def H_def by linarith
  have s1: "r = None" "s1 = setImage s i ((heap s i)\<lparr>hasFill := False, pixels := Some buf,
                                                    needsToResolvePixels := True\<rparr>)"
    using ReplacePixels_full [OF assms(1), where pix = buf and i = i] assms(3,4) i64 unfolding W_def H_def by auto
  have h1: "\<not> needsToDelayCommands s1" "dims_ok (heap s1 i)" "\<not> hasFill (heap s1 i)"
    "pixels (heap s1 i) = Some buf" "width (heap s1 i) = W" "height (heap s1 i) = H"
    "gpu s1 = gpu s"
    unfolding s1(2) using assms(1,2) by (simp_all add: setImage_def dims_ok_def W_def H_def)
  have reg: "in_region 0 0 W H (width (heap s1 i)) (height (heap s1 i))"
    unfolding h1 in_region_def using d by simp
  have lb1: "length buf = nat (4 * width (heap s1 i) * height (heap s1 i))"
    unfolding h1 by (rule lb)
  have "Pixels s1 i 0 0 W H =
          (Inr (concat (map (region_row buf (width (heap s1 i)) 0 0 W) [0..H - 1])), s1)"
    by (rule Pixels_cached [OF h1(1,2,3) reg h1(4) lb1])
  then have "Pixels s1 i 0 0 W H = (Inr buf, s1)"
    unfolding h1 using full_rows_concat [OF d(1,2) lb] by simp
  then show ?thesis using assms(5) s1(1) h1(7) unfolding W_def H_def by auto
qed

theorem full_write_read_roundtrip_witness:
  "fst (ReplacePixels frame4 0 (replicate 64 9) 0 0 4 4) = None \<and>
   fst (Pixels (snd (ReplacePixels frame4 0 (replicate 64 9) 0 0 4 4)) 0 0 0 4 4) =
     Inr (replicate 64 9) \<and>
   gpu (snd (Pixels (snd (ReplacePixels frame4 0 (replicate 64 9) 0 0 4 4)) 0 0 0 4 4)) = gpu frame4 \<and>
   \<not> needsToDelayCommands frame4 \<and> dims_ok (heap frame4 0) \<and>
   int (length (replicate 64 (9 :: byte))) = 4 * width (heap frame4 0) * height (heap frame4 0)"
proof -
  have l: "int (length (replicate 64 (9 :: byte))) = 4 * width (heap frame4 0) * height (heap frame4 0)"
    by (simp add: frame4_facts)
  show ?thesis
    using full_write_read_roundtrip [OF frame4_facts(1,2) l surjective_pairing surjective_pairing]
      frame4_facts(1,2) l
    by (simp add: frame4_facts(4,5))
qed

subsection \<open>The row loop of \<open>replacePendingPixels\<close>\<close>

lemma blit_nth:
  assumes "off + length row \<le> length p" "k < length p"
  shows "(take off p @ row @ drop (off + length row) p) ! k =
           (if off \<le> k \<and> k < off + length row then row ! (k - off) else p ! k)"
proof -
  consider "k < off" | "off \<le> k" "k < off + length row" | "off + length row \<le> k" by linarith
  then show ?thesis
  proof cases
    case 1
    then show ?thesis using assms by (simp add: nth_append)
  next
    case 2
    then have "k - off < length row" by linarith
    then show ?thesis using 2 assms by (simp add: nth_append)
  next
    case 3
    then obtain m where m: "k = off + length row + m" using le_Suc_ex by blast
    show ?thesis using assms unfolding m by (simp add: nth_append)
  qed
qed

text \<open>Later rows of a region start at least one image row further on.\<close>

lemma row_off_later:
  assumes "0 \<le> iw" "r < r'"
  shows "row_off iw x y r + 4 * iw \<le> row_off iw x y r'"
proof -
  have "(r + 1 + y) * iw \<le> (r' + y) * iw" using assms by (intro mult_right_mono) auto
  then show ?thesis unfolding row_off_def by (simp add: algebra_simps)
qed

lemma replacePendingPixels_rows_char:
  assumes "0 \<le> x" "0 \<le> y" "0 \<le> w" "x + w \<le> iw" "y + h \<le> ih"
    "length p = nat (4 * iw * ih)" "4 * iw * ih < 2 ^ 63" "length pix = nat (4 * w * h)" "0 \<le> j"
  shows "\<exists>p'. replacePendingPixels_rows pix iw x y w h j p = (None, p') \<and> length p' = length p \<and>
           (\<forall>r c. j \<le> r \<and> r < h \<and> 0 \<le> c \<and> c < 4 * w \<longrightarrow>
                  p' ! nat (row_off iw x y r + c) = pix ! nat (4 * r * w + c)) \<and>
           (\<forall>k < length p.
              (\<forall>r. j \<le> r \<and> r < h \<longrightarrow>
                   \<not> (row_off iw x y r \<le> int k \<and> int k < row_off iw x y r + 4 * w)) \<longrightarrow>
              p' ! k = p ! k)"
  using assms
proof (induction pix iw x y w h j p rule: replacePendingPixels_rows.induct)
  case (1 pix iw x y w h j p)
  show ?case
  proof (cases "j < h")
    case False
    then show ?thesis by (subst replacePendingPixels_rows.simps) auto
  next
    case True
    have W0: "0 \<le> iw" using "1.prems" by linarith
    have wle: "4 * w \<le> 4 * iw" using "1.prems" by linarith
    define L where "L = 4 * iw * ih"
    define l where "l = 4 * w * h"
    define ai where "ai = 4 * j * w"
    define bi where "bi = 4 * (j + 1) * w"
    define oi where "oi = 4 * ((j + y) * iw + x)"
    define wi where "wi = 4 * w"
    have lp: "length p = nat L" and L63: "L < 2 ^ 63" and lpix: "length pix = nat l"
      using "1.prems" unfolding L_def l_def by auto
    have whle: "l \<le> L"
      unfolding l_def L_def by (rule area_le) (use "1.prems" True in auto)
    have e1: "bi \<le> l" unfolding bi_def l_def using row_end_le "1.prems" True by simp
    have e0: "0 \<le> ai" unfolding ai_def using "1.prems" by simp
    have w0: "0 \<le> wi" unfolding wi_def using "1.prems" by simp
    have e01: "bi = ai + wi" unfolding ai_def bi_def wi_def by (simp add: algebra_simps)
    have o1: "oi + wi \<le> L" unfolding oi_def wi_def L_def
      using offset_le [of "j + y" ih iw x w] "1.prems" True W0 by simp
    have o0: "0 \<le> oi" unfolding oi_def using "1.prems" W0 by simp
    have i1: "int64 ai = ai"
      by (rule int64_id, rule is_int_between [OF e0 _ L63]) (use e01 e1 whle w0 in linarith)
    have i2: "int64 bi = bi"
      by (rule int64_id, rule is_int_between [OF _ _ L63]) (use e0 e01 e1 whle w0 in linarith)+
    have i3: "int64 oi = oi"
      by (rule int64_id, rule is_int_between [OF o0 _ L63]) (use o1 w0 in linarith)
    define a where "a = nat ai"
    define off where "off = nat oi"
    define row where "row = take (nat wi) (drop a pix)"
    have lrow: "length row = nat wi"
      unfolding row_def a_def using e0 e01 e1 w0 lpix by simp
    have sb: "slice_bounds pix (int64 (4 * j * w)) (int64 (4 * (j + 1) * w)) = Inr (a, nat wi)"
      unfolding slice_bounds_def i1 [unfolded ai_def] i2 [unfolded bi_def] a_def
      using e0 e01 e1 w0 lpix unfolding ai_def bi_def by simp
    have sf: "slice_from p (int64 (4 * ((j + y) * iw + x))) = Inr (off, length p - off)"
      unfolding slice_from_def slice_bounds_def i3 [unfolded oi_def] off_def
      using o0 o1 w0 lp unfolding oi_def by (simp add: nat_diff_distrib)
    have fit: "off + length row \<le> length p"
      unfolding lrow off_def using o0 o1 w0 lp by simp
    define p1 where "p1 = take off p @ row @ drop (off + length row) p"
    have cp: "copy_to p (off, length p - off) (take (snd (a, nat wi)) (drop (fst (a, nat wi)) pix)) = p1"
    proof -
      have src: "take (snd (a, nat wi)) (drop (fst (a, nat wi)) pix) = row" by (simp add: row_def)
      have n: "min (length p - off) (length row) = length row" using fit by simp
      show ?thesis unfolding src copy_to_def by (simp add: Let_def n p1_def)
    qed
    have l1: "length p1 = length p" unfolding p1_def using fit by simp
    have "\<exists>p'. replacePendingPixels_rows pix iw x y w h (j + 1) p1 = (None, p') \<and> length p' = length p1 \<and>
           (\<forall>r c. j + 1 \<le> r \<and> r < h \<and> 0 \<le> c \<and> c < 4 * w \<longrightarrow>
                  p' ! nat (row_off iw x y r + c) = pix ! nat (4 * r * w + c)) \<and>
           (\<forall>k < length p1.
              (\<forall>r. j + 1 \<le> r \<and> r < h \<longrightarrow>
                   \<not> (row_off iw x y r \<le> int k \<and> int k < row_off iw x y r + 4 * w)) \<longrightarrow>
              p' ! k = p1 ! k)"
      unfolding cp [symmetric]
    proof (rule "1.IH" [OF True sf sb "1.prems"(1-5) _ "1.prems"(7,8)])
      show "length (copy_to p (off, length p - off)
                      (take (snd (a, nat wi)) (drop (fst (a, nat wi)) pix))) = nat (4 * iw * ih)"
        unfolding cp l1 by (rule "1.prems"(6))
      show "0 \<le> j + 1" using "1.prems"(9) by simp
    qed
    then obtain p' where p': "replacePendingPixels_rows pix iw x y w h (j + 1) p1 = (None, p')"
      "length p' = length p"
      and A': "\<And>r c. j + 1 \<le> r \<Longrightarrow> r < h \<Longrightarrow> 0 \<le> c \<Longrightarrow> c < 4 * w \<Longrightarrow>
                  p' ! nat (row_off iw x y r + c) = pix ! nat (4 * r * w + c)"
      and B': "\<And>k. k < length p \<Longrightarrow>
              (\<And>r. j + 1 \<le> r \<Longrightarrow> r < h \<Longrightarrow>
                   \<not> (row_off iw x y r \<le> int k \<and> int k < row_off iw x y r + 4 * w)) \<Longrightarrow>
              p' ! k = p1 ! k"
      using l1 by auto
    have step: "replacePendingPixels_rows pix iw x y w h j p =
                  replacePendingPixels_rows pix iw x y w h (j + 1) p1"
      by (subst replacePendingPixels_rows.simps) (simp only: True if_True sb sf sum.case cp)
    have ro: "row_off iw x y j = oi" unfolding row_off_def oi_def ..
    have A: "p' ! nat (row_off iw x y r + c) = pix ! nat (4 * r * w + c)"
      if "j \<le> r" "r < h" "0 \<le> c" "c < 4 * w" for r c
    proof (cases "r = j")
      case False
      then show ?thesis using A' that by simp
    next
      case rj: True
      define k where "k = nat (oi + c)"
      have kk: "k = off + nat c" unfolding k_def off_def using o0 that by (simp add: nat_add_distrib)
      have kl: "k < length p" unfolding kk off_def lp using o0 o1 that w0 wi_def by linarith
      have "p' ! k = p1 ! k"
      proof (rule B' [OF kl])
        fix r' assume "j + 1 \<le> r'" "r' < h"
        then have "oi + 4 * iw \<le> row_off iw x y r'"
          using row_off_later [OF W0, of j r' x y] ro by simp
        then show "\<not> (row_off iw x y r' \<le> int k \<and> int k < row_off iw x y r' + 4 * w)"
          unfolding k_def using o0 that wle by simp
      qed
      also have "\<dots> = row ! nat c"
        unfolding p1_def using blit_nth [OF fit kl] kk lrow that wi_def by simp
      also have "\<dots> = pix ! (a + nat c)"
      proof -
        have "a + nat c < length pix"
          unfolding a_def lpix using e0 e01 e1 that wi_def by linarith
        then show ?thesis unfolding row_def using that wi_def by simp
      qed
      also have "a + nat c = nat (4 * r * w + c)"
        unfolding a_def ai_def rj using e0 that ai_def by (simp add: nat_add_distrib)
      finally show ?thesis unfolding rj ro k_def .
    qed
    have B: "p' ! k = p ! k"
      if "k < length p"
        "\<And>r. j \<le> r \<Longrightarrow> r < h \<Longrightarrow>
           \<not> (row_off iw x y r \<le> int k \<and> int k < row_off iw x y r + 4 * w)" for k
    proof -
      have "p' ! k = p1 ! k" by (rule B' [OF that(1)]) (use that(2) in auto)
      also have "\<dots> = p ! k"
      proof -
        have "\<not> (oi \<le> int k \<and> int k < oi + 4 * w)" using that(2) [of j] True ro by simp
        then have "\<not> (off \<le> k \<and> k < off + length row)"
          unfolding off_def lrow wi_def using o0 w0 wi_def by auto
        then show ?thesis unfolding p1_def using blit_nth [OF fit that(1)] by auto
      qed
      finally show ?thesis .
    qed
    show ?thesis unfolding step using p' A B by auto
  qed
qed

subsection \<open>Calls that cannot panic\<close>

text \<open>
  With a full-size buffer cached and the region inside the image, the row loop of
  \<open>replacePendingPixels\<close> runs to its end.
\<close>

lemma replacePendingPixels_ok:
  assumes "dims_ok (heap s i)" "in_region x y w h (width (heap s i)) (height (heap s i))"
    "pixels (heap s i) = Some p" "length p = nat (4 * width (heap s i) * height (heap s i))"
    "length pix = nat (4 * w * h)"
  shows "\<exists>p'. replacePendingPixels s i pix x y w h =
                 (None, setImage s i ((heap s i)\<lparr>pixels := Some p', needsToResolvePixels := True\<rparr>)) \<and>
              replacePendingPixels_rows pix (width (heap s i)) x y w h 0 p = (None, p') \<and>
              length p' = length p"
proof -
  obtain p' where "replacePendingPixels_rows pix (width (heap s i)) x y w h 0 p = (None, p')"
    "length p' = length p"
    using replacePendingPixels_rows_char
      [of x y w "width (heap s i)" h "height (heap s i)" p pix 0] assms
    unfolding dims_ok_def in_region_def by auto
  then show ?thesis using assms(3) by (simp add: replacePendingPixels_def)
qed

lemma int_length_ok:
  assumes "dims_ok im" "in_region x y w h (width im) (height im)" "length pix = nat (4 * w * h)"
  shows "int (length pix) = int64 (4 * w * h)"
proof -
  have le: "4 * w * h \<le> 4 * width im * height im"
    by (rule area_le) (use assms in \<open>auto simp: in_region_def\<close>)
  have ge: "0 \<le> 4 * w * h" using assms by (simp add: in_region_def)
  have "int64 (4 * w * h) = 4 * w * h"
    by (rule int64_id, rule is_int_between [OF ge le]) (use assms in \<open>simp add: dims_ok_def\<close>)
  then show ?thesis using assms(3) ge by simp
qed

lemma ReplacePixels_no_panic:
  assumes "\<not> needsToDelayCommands s" "dims_ok (heap s i)"
    "in_region x y w h (width (heap s i)) (height (heap s i))"
    "length pix = nat (4 * w * h)" "buffer_ok s i" "resource_ok s i"
  shows "fst (ReplacePixels s i pix x y w h) \<noteq> Some (Panic m)"
proof (cases "x = 0 \<and> y = 0 \<and> w = width (heap s i) \<and> h = height (heap s i)")
  case True
  then show ?thesis
    using ReplacePixels_full [OF assms(1), of pix i] int_length_ok [OF assms(2,3,4)] by simp
next
  case partial: False
  note R = ReplacePixels_partial [OF assms(1) int_length_ok [OF assms(2,3,4)] partial]
  define s1 where "s1 = resolvePendingFill s i"
  have h1: "dims_ok (heap s1 i)" "width (heap s1 i) = width (heap s i)"
    "height (heap s1 i) = height (heap s i)" "pixels (heap s1 i) = pixels (heap s i)"
    "img (heap s1 i) = img (heap s i)" "mmPixels s1 = mmPixels s"
    unfolding s1_def using assms(2)
    by (simp_all add: resolvePendingFill_def Let_def setImage_def call_def dims_ok_def)
  show ?thesis
  proof (cases "pixels (heap s i)")
    case (Some p)
    then have lp: "length p = nat (4 * width (heap s1 i) * height (heap s1 i))"
      using assms(5) h1 by (simp add: buffer_ok_def)
    have reg: "in_region x y w h (width (heap s1 i)) (height (heap s1 i))"
      using assms(3) h1 by simp
    have ps: "pixels (heap s1 i) = Some p" using Some h1 by simp
    show ?thesis
      using replacePendingPixels_ok [OF h1(1) reg ps lp assms(4)] ps
      unfolding R by (auto simp: Let_def s1_def [symmetric])
  next
    case None
    define s2 where
      "s2 = call s1 (MM_Pixels (img (heap s1 i)) 0 0 (width (heap s1 i)) (height (heap s1 i)))"
    have g2: "gpu s2 = gpu s1 @ [MM_Pixels (img (heap s i)) 0 0 (width (heap s i)) (height (heap s i))]"
      and m2: "mmPixels s2 = mmPixels s" and hp2: "heap s2 = heap s1"
      unfolding s2_def using h1 by (simp_all add: call_def)
    show ?thesis
    proof (cases "mmPixels s2 (gpu s2)")
      case (Inl err)
      then show ?thesis using None h1(4)
        unfolding R by (simp add: Let_def s1_def [symmetric] s2_def [symmetric])
    next
      case (Inr p)
      then have lp: "length p = nat (4 * width (heap s i) * height (heap s i))"
        using assms(6) g2 m2 unfolding resource_ok_def by auto
      define s3 where "s3 = setImage s2 i ((heap s2 i)\<lparr>pixels := Some p\<rparr>)"
      have h3: "dims_ok (heap s3 i)" "width (heap s3 i) = width (heap s i)"
        "height (heap s3 i) = height (heap s i)" "pixels (heap s3 i) = Some p"
        unfolding s3_def hp2 using h1 by (simp_all add: setImage_def dims_ok_def)
      have reg: "in_region x y w h (width (heap s3 i)) (height (heap s3 i))"
        using assms(3) h3 by simp
      have lp3: "length p = nat (4 * width (heap s3 i) * height (heap s3 i))"
        using lp h3 by simp
      show ?thesis
        using replacePendingPixels_ok [OF h3(1) reg h3(4) lp3 assms(4)] None h1(4) Inr
        unfolding R by (auto simp: Let_def s1_def [symmetric] s2_def [symmetric] s3_def [symmetric])
    qed
  qed
qed

text \<open>
  \<open>Pixels\<close> on a region inside the image returns its \<open>4 * w * h\<close> bytes or the
  error of the read-back; it leaves the image as it was, or with the read-back cached.
\<close>

lemma Pixels_no_panic:
  assumes "\<not> needsToDelayCommands s" "dims_ok (heap s i)"
    "in_region x y w h (width (heap s i)) (height (heap s i))"
    "buffer_ok s i" "resource_ok s i" "Pixels s i x y w h = (r, s1)"
  shows "r \<noteq> Inl (Panic m) \<and> (\<forall>pix. r = Inr pix \<longrightarrow> length pix = nat (4 * w * h)) \<and>
         \<not> needsToDelayCommands s1 \<and> dims_ok (heap s1 i) \<and>
         width (heap s1 i) = width (heap s i) \<and> height (heap s1 i) = height (heap s i) \<and>
         buffer_ok s1 i \<and> resource_ok s1 i"
proof (cases "hasFill (heap s i)")
  case True
  have "nat (4 * w * h) = 4 * nat (w * h)"
    by (rule nat_4wh) (use assms(3) in \<open>auto simp: in_region_def\<close>)
  then show ?thesis
    using Pixels_pending_fill [OF assms(1,2) True assms(3)] assms by (auto simp: length_solid)
next
  case False
  show ?thesis
  proof (cases "pixels (heap s i)")
    case (Some p)
    then have lp: "length p = nat (4 * width (heap s i) * height (heap s i))"
      using assms(4) by (simp add: buffer_ok_def)
    show ?thesis
      using Pixels_cached [OF assms(1,2) False assms(3) Some lp]
        length_region_rows0 [OF assms(2,3) lp] assms by auto
  next
    case None
    define c where "c = MM_Pixels (img (heap s i)) 0 0 (width (heap s i)) (height (heap s i))"
    show ?thesis
    proof (cases "mmPixels s (gpu s @ [c])")
      case (Inl err)
      have pass: "In (Rect x y (int64 (x + w)) (int64 (y + h)))
                    (Rect 0 0 (width (heap s i)) (height (heap s i)))"
        "make_bytes (int64 (4 * w * h)) = Inr (replicate (nat (4 * w * h)) 0)"
        by (rule in_region_passes [OF assms(2,3)])+
      have "Pixels s i x y w h = (Inl (Err err), call s c)"
        using assms(1) False None Inl pass
        by (simp add: Pixels_def checkDelayedCommandsFlushed_def call_def Let_def c_def)
      then show ?thesis using assms None
        by (auto simp: call_def buffer_ok_def resource_ok_def)
    next
      case (Inr p)
      then have lp: "length p = nat (4 * width (heap s i) * height (heap s i))"
        using assms(5) unfolding resource_ok_def c_def by auto
      show ?thesis
        using Pixels_readback [OF assms(1,2) False assms(3) None Inr [unfolded c_def] lp]
          length_region_rows0 [OF assms(2,3) lp] assms lp
        by (auto simp: call_def setImage_def buffer_ok_def resource_ok_def dims_ok_def)
    qed
  qed
qed

subsection \<open>Disjoint partial writes\<close>

text \<open>A byte of a row of a region lies in the image row of that region row.\<close>

lemma segment_in_row:
  assumes "0 \<le> x" "0 \<le> w" "x + w \<le> iw"
    "row_off iw x y r \<le> k" "k < row_off iw x y r + 4 * w"
  shows "4 * ((r + y) * iw) \<le> k \<and> k < 4 * ((r + y + 1) * iw) \<and>
         4 * x \<le> k - 4 * ((r + y) * iw) \<and> k - 4 * ((r + y) * iw) < 4 * (x + w)"
  using assms unfolding row_off_def by (simp add: algebra_simps)

lemma rows_apart:
  fixes a b iw k :: int
  assumes "0 \<le> iw" "a < b" "k < 4 * ((a + 1) * iw)" "4 * (b * iw) \<le> k"
  shows False
proof -
  have "(a + 1) * iw \<le> b * iw" using assms by (intro mult_right_mono) auto
  then show False using assms by linarith
qed

lemma segments_disjoint:
  assumes "in_region x1 y1 w1 h1 iw ih" "in_region x2 y2 w2 h2 iw ih"
    "disjoint (pix1, x1, y1, w1, h1) (pix2, x2, y2, w2, h2)"
    "in_segment iw (pix1, x1, y1, w1, h1) r1 k" "in_segment iw (pix2, x2, y2, w2, h2) r2 k"
  shows False
proof -
  have W0: "0 \<le> iw" using assms(1) unfolding in_region_def by linarith
  have s1: "4 * ((r1 + y1) * iw) \<le> int k" "int k < 4 * ((r1 + y1 + 1) * iw)"
    "4 * x1 \<le> int k - 4 * ((r1 + y1) * iw)" "int k - 4 * ((r1 + y1) * iw) < 4 * (x1 + w1)"
    using segment_in_row [of x1 w1 iw y1 r1 "int k"] assms(1,4) unfolding in_region_def by auto
  have s2: "4 * ((r2 + y2) * iw) \<le> int k" "int k < 4 * ((r2 + y2 + 1) * iw)"
    "4 * x2 \<le> int k - 4 * ((r2 + y2) * iw)" "int k - 4 * ((r2 + y2) * iw) < 4 * (x2 + w2)"
    using segment_in_row [of x2 w2 iw y2 r2 "int k"] assms(2,5) unfolding in_region_def by auto
  have same: "r1 + y1 = r2 + y2"
  proof (rule ccontr)
    assume "r1 + y1 \<noteq> r2 + y2"
    then consider "r1 + y1 < r2 + y2" | "r2 + y2 < r1 + y1" by linarith
    then show False
    proof cases
      case 1
      then show False using rows_apart [OF W0 1 s1(2) s2(1)] by simp
    next
      case 2
      then show False using rows_apart [OF W0 2 s2(2) s1(1)] by simp
    qed
  qed
  have r: "0 \<le> r1" "r1 < h1" "0 \<le> r2" "r2 < h2" using assms(4,5) by auto
  have "x2 < x1 + w1" using le_less_trans [OF s2(3) s1(4) [unfolded same]] by simp
  moreover have "x1 < x2 + w2" using le_less_trans [OF s1(3) [unfolded same] s2(4)] by simp
  moreover have "y2 < y1 + h1" using r same by linarith
  moreover have "y1 < y2 + h2" using r same by linarith
  moreover have "0 < w1" using le_less_trans [OF s1(3,4)] by simp
  moreover have "0 < w2" using le_less_trans [OF s2(3,4)] by simp
  moreover have "0 < h1" using r by linarith
  moreover have "0 < h2" using r by linarith
  ultimately show False using assms(3) by simp
qed

text \<open>One partial write onto a cached buffer, in the words of \<open>composite\<close>.\<close>

lemma partial_write_cached:
  assumes "\<not> needsToDelayCommands s" "dims_ok (heap s i)" "\<not> hasFill (heap s i)"
    "pixels (heap s i) = Some p" "length p = nat (4 * width (heap s i) * height (heap s i))"
    "partial_write (width (heap s i)) (height (heap s i)) (pix, x, y, w, h)"
  shows "\<exists>p'. ReplacePixels s i pix x y w h =
                 (None, setImage s i ((heap s i)\<lparr>pixels := Some p', needsToResolvePixels := True\<rparr>)) \<and>
              composite (width (heap s i)) [(pix, x, y, w, h)] p p'"
proof -
  define W where "W = width (heap s i)"
  define H where "H = height (heap s i)"
  have reg: "in_region x y w h W H" and lpix: "length pix = nat (4 * w * h)"
    and part: "\<not> (x = 0 \<and> y = 0 \<and> w = width (heap s i) \<and> h = height (heap s i))"
    using assms(6) unfolding W_def H_def by auto
  have li: "int (length pix) = int64 (4 * w * h)"
    by (rule int_length_ok [OF assms(2) reg [unfolded W_def H_def] lpix])
  have rf: "resolvePendingFill s i = s" using assms(3) by (simp add: resolvePendingFill_def)
  have R: "ReplacePixels s i pix x y w h = replacePendingPixels s i pix x y w h"
    unfolding ReplacePixels_partial [OF assms(1) li part] rf using assms(4) by simp
  obtain p' where rows: "replacePendingPixels_rows pix W x y w h 0 p = (None, p')"
    and lp': "length p' = length p"
    and A: "\<And>r c. 0 \<le> r \<Longrightarrow> r < h \<Longrightarrow> 0 \<le> c \<Longrightarrow> c < 4 * w \<Longrightarrow>
                  p' ! nat (row_off W x y r + c) = pix ! nat (4 * r * w + c)"
    and B: "\<And>k. k < length p \<Longrightarrow>
              (\<And>r. 0 \<le> r \<Longrightarrow> r < h \<Longrightarrow>
                   \<not> (row_off W x y r \<le> int k \<and> int k < row_off W x y r + 4 * w)) \<Longrightarrow>
              p' ! k = p ! k"
    using replacePendingPixels_rows_char [of x y w W h H p pix 0] assms(2,5) reg lpix
    unfolding dims_ok_def in_region_def W_def H_def by auto
  have res: "ReplacePixels s i pix x y w h =
               (None, setImage s i ((heap s i)\<lparr>pixels := Some p', needsToResolvePixels := True\<rparr>))"
    unfolding R using rows assms(4) by (simp add: replacePendingPixels_def W_def)
  have comp: "composite W [(pix, x, y, w, h)] p p'"
    unfolding composite_def
  proof (intro conjI allI impI ballI)
    show "length p' = length p" by (rule lp')
  next
    fix k wr r
    assume k: "k < length p" and wr: "wr \<in> set [(pix, x, y, w, h)]" and seg: "in_segment W wr r k"
    have wr': "wr = (pix, x, y, w, h)" using wr by simp
    define c where "c = int k - row_off W x y r"
    have c: "0 \<le> c" "c < 4 * w" "0 \<le> r" "r < h" using seg unfolding wr' c_def by auto
    have "nat (row_off W x y r + c) = k" unfolding c_def by simp
    then show "p' ! k = written_byte W wr r k"
      using A [OF c(3,4,1,2)] unfolding wr' by (simp add: c_def)
  next
    fix k
    assume k: "k < length p" and out: "\<forall>wr \<in> set [(pix, x, y, w, h)]. \<forall>r. \<not> in_segment W wr r k"
    show "p' ! k = p ! k"
      by (rule B [OF k]) (use out in auto)
  qed
  show ?thesis using res comp unfolding W_def by blast
qed

text \<open>A further write that is disjoint from the earlier ones adds to the composite.\<close>

lemma composite_Cons:
  assumes "composite iw [a] p p'" "composite iw ws p' q"
    "partial_write iw ih a" "\<forall>b \<in> set ws. partial_write iw ih b \<and> disjoint a b"
  shows "composite iw (a # ws) p q"
  unfolding composite_def
proof (intro conjI allI impI ballI)
  show "length q = length p" using assms(1,2) unfolding composite_def by simp
next
  fix k wr r
  assume k: "k < length p" and wr: "wr \<in> set (a # ws)" and seg: "in_segment iw wr r k"
  have k': "k < length p'" using k assms(1) unfolding composite_def by simp
  show "q ! k = written_byte iw wr r k"
  proof (cases "wr \<in> set ws")
    case True
    then show ?thesis using assms(2) k' seg unfolding composite_def by blast
  next
    case False
    then have wa: "wr = a" using wr by simp
    have "\<not> in_segment iw b r' k" if "b \<in> set ws" for b r'
    proof
      assume sb: "in_segment iw b r' k"
      obtain pa xa ya wa' ha where a: "a = (pa, xa, ya, wa', ha)" by (cases a)
      obtain pb xb yb wb hb where b: "b = (pb, xb, yb, wb, hb)" by (cases b)
      show False
        using segments_disjoint [of xa ya wa' ha iw ih xb yb wb hb pa pb r k r']
          assms(3,4) that seg sb unfolding wa a b by auto
    qed
    then have "q ! k = p' ! k" using assms(2) k' unfolding composite_def by blast
    also have "\<dots> = written_byte iw wr r k"
      using assms(1) k seg unfolding composite_def wa by simp
    finally show ?thesis .
  qed
next
  fix k
  assume k: "k < length p" and out: "\<forall>wr \<in> set (a # ws). \<forall>r. \<not> in_segment iw wr r k"
  have k': "k < length p'" using k assms(1) unfolding composite_def by simp
  have "q ! k = p' ! k" using assms(2) k' out unfolding composite_def by simp
  also have "\<dots> = p ! k" using assms(1) k out unfolding composite_def by simp
  finally show "q ! k = p ! k" .
qed

lemma composite_Nil: "composite iw [] p p"
  by (simp add: composite_def)

text \<open>The composite does not depend on the order of the writes.\<close>

lemma composite_unique:
  assumes "composite iw ws p q" "composite iw ws' p q'" "set ws' = set ws"
  shows "q' = q"
proof (rule nth_equalityI)
  show "length q' = length q" using assms(1,2) unfolding composite_def by simp
next
  fix k assume "k < length q'"
  then have k: "k < length p" using assms(2) unfolding composite_def by simp
  show "q' ! k = q ! k"
  proof (cases "\<exists>wr \<in> set ws. \<exists>r. in_segment iw wr r k")
    case True
    then obtain wr r where "wr \<in> set ws" "in_segment iw wr r k" by blast
    then show ?thesis using assms k unfolding composite_def by metis
  next
    case False
    then show ?thesis using assms k unfolding composite_def by metis
  qed
qed

text \<open>Disjoint partial writes onto a cached buffer, in the order of the list.\<close>

lemma writes_cached:
  assumes "\<not> needsToDelayCommands s" "dims_ok (heap s i)" "\<not> hasFill (heap s i)"
    "pixels (heap s i) = Some p" "length p = nat (4 * width (heap s i) * height (heap s i))"
    "\<forall>wr \<in> set ws. partial_write (width (heap s i)) (height (heap s i)) wr"
    "distinct ws" "\<forall>a \<in> set ws. \<forall>b \<in> set ws. a \<noteq> b \<longrightarrow> disjoint a b"
  shows "\<exists>q. writes s i ws =
               (None, setImage s i ((heap s i)\<lparr>pixels := Some q,
                  needsToResolvePixels := (needsToResolvePixels (heap s i) \<or> ws \<noteq> [])\<rparr>)) \<and>
             composite (width (heap s i)) ws p q"
  using assms
proof (induction ws arbitrary: s p)
  case Nil
  have "setImage s i ((heap s i)\<lparr>pixels := Some p,
          needsToResolvePixels := (needsToResolvePixels (heap s i) \<or> [] \<noteq> [])\<rparr>) = s"
    unfolding Nil.prems(4) [symmetric] by (simp add: setImage_def)
  then have "writes s i [] =
               (None, setImage s i ((heap s i)\<lparr>pixels := Some p,
                  needsToResolvePixels := (needsToResolvePixels (heap s i) \<or> [] \<noteq> [])\<rparr>))"
    by simp
  then show ?case using composite_Nil by blast
next
  case (Cons a ws)
  obtain pix x y w h where a: "a = (pix, x, y, w, h)" by (cases a)
  define W where "W = width (heap s i)"
  define H where "H = height (heap s i)"
  have pa: "partial_write W H (pix, x, y, w, h)" using Cons.prems(6) unfolding a W_def H_def by simp
  obtain p' where r1: "ReplacePixels s i pix x y w h =
      (None, setImage s i ((heap s i)\<lparr>pixels := Some p', needsToResolvePixels := True\<rparr>))"
    and c1: "composite W [(pix, x, y, w, h)] p p'"
    using partial_write_cached [OF Cons.prems(1-5) pa [unfolded W_def H_def]] unfolding W_def by blast
  define s1 where "s1 = setImage s i ((heap s i)\<lparr>pixels := Some p', needsToResolvePixels := True\<rparr>)"
  have h1: "\<not> needsToDelayCommands s1" "dims_ok (heap s1 i)" "\<not> hasFill (heap s1 i)"
    "pixels (heap s1 i) = Some p'" "width (heap s1 i) = W" "height (heap s1 i) = H"
    unfolding s1_def using Cons.prems(1-3) by (simp_all add: setImage_def dims_ok_def W_def H_def)
  have lp': "length p' = nat (4 * width (heap s1 i) * height (heap s1 i))"
    using c1 Cons.prems(5) unfolding composite_def h1 W_def H_def by simp
  have "\<exists>q. writes s1 i ws =
               (None, setImage s1 i ((heap s1 i)\<lparr>pixels := Some q,
                  needsToResolvePixels := (needsToResolvePixels (heap s1 i) \<or> ws \<noteq> [])\<rparr>)) \<and>
             composite (width (heap s1 i)) ws p' q"
    by (rule Cons.IH [OF h1(1-4) lp']) (use Cons.prems(6-8) h1(5,6) in \<open>auto simp: W_def H_def\<close>)
  then obtain q where r2: "writes s1 i ws =
               (None, setImage s1 i ((heap s1 i)\<lparr>pixels := Some q,
                  needsToResolvePixels := (needsToResolvePixels (heap s1 i) \<or> ws \<noteq> [])\<rparr>))"
    and c2: "composite W ws p' q"
    unfolding h1 by blast
  have dis: "\<forall>b \<in> set ws. partial_write W H b \<and> disjoint a b"
    using Cons.prems(6-8) unfolding W_def H_def by auto
  have comp: "composite W (a # ws) p q"
    by (rule composite_Cons [OF c1 [folded a] c2 pa [folded a] dis])
  have st: "setImage s1 i ((heap s1 i)\<lparr>pixels := Some q,
              needsToResolvePixels := (needsToResolvePixels (heap s1 i) \<or> ws \<noteq> [])\<rparr>) =
            setImage s i ((heap s i)\<lparr>pixels := Some q,
              needsToResolvePixels := (needsToResolvePixels (heap s i) \<or> a # ws \<noteq> [])\<rparr>)"
    unfolding s1_def by (simp add: setImage_def)
  have "writes s i (a # ws) = writes s1 i ws"
    unfolding a using r1 by (simp add: s1_def)
  then show ?case using r2 st comp unfolding W_def by auto
qed

text \<open>
  The first partial write starts from the buffer \<open>prior\<close>: it behaves as on the state
  in which the fill has been pushed and that buffer is the cached one.
\<close>

lemma materialise:
  assumes "\<not> needsToDelayCommands s" "int (length pix) = int64 (4 * w * h)"
    "\<not> (x = 0 \<and> y = 0 \<and> w = width (heap s i) \<and> h = height (heap s i))"
    "prior s i = Inr p0"
    "s0 = setImage (s\<lparr>gpu := gpu s @ first_calls s i\<rparr>) i
            ((heap s i)\<lparr>hasFill := False, pixels := Some p0\<rparr>)"
  shows "ReplacePixels s i pix x y w h = replacePendingPixels s0 i pix x y w h"
proof -
  note R = ReplacePixels_partial [OF assms(1-3)]
  define s1 where "s1 = resolvePendingFill s i"
  have s1: "s1 = setImage (s\<lparr>gpu := gpu s @
                (if hasFill (heap s i) then [MM_Fill (img (heap s i)) (fillColor (heap s i))] else [])\<rparr>)
              i ((heap s i)\<lparr>hasFill := False\<rparr>)"
    unfolding s1_def
    by (cases "hasFill (heap s i)")
       (simp_all add: resolvePendingFill_def Let_def setImage_def call_def hasFill_update_id)
  show ?thesis
  proof (cases "pixels (heap s i)")
    case (Some p)
    then have p0: "p0 = p" using assms(4) by (simp add: prior_def)
    have "s0 = s1"
      unfolding assms(5) s1 p0 using Some
      by (simp add: first_calls_def setImage_def pixels_update_id)
    moreover have "pixels (heap s1 i) = Some p" unfolding s1 using Some by (simp add: setImage_def)
    ultimately show ?thesis unfolding R by (simp add: Let_def s1_def [symmetric])
  next
    case None
    define s2 where
      "s2 = call s1 (MM_Pixels (img (heap s1 i)) 0 0 (width (heap s1 i)) (height (heap s1 i)))"
    have g2: "gpu s2 = gpu s @ first_calls s i" and m2: "mmPixels s2 = mmPixels s"
      unfolding s2_def s1 using None by (simp_all add: call_def setImage_def first_calls_def)
    have rd: "mmPixels s2 (gpu s2) = Inr p0"
      using assms(4) None unfolding g2 m2 by (simp add: prior_def)
    have "setImage s2 i ((heap s2 i)\<lparr>pixels := Some p0\<rparr>) = s0"
      unfolding assms(5) s2_def s1 using None
      by (simp add: call_def setImage_def first_calls_def)
    moreover have "pixels (heap s1 i) = None" unfolding s1 using None by (simp add: setImage_def)
    ultimately show ?thesis
      unfolding R using rd by (simp add: Let_def s1_def [symmetric] s2_def [symmetric])
  qed
qed

lemma writes_from_prior:
  assumes "\<not> needsToDelayCommands s" "dims_ok (heap s i)" "prior s i = Inr p0"
    "ws \<noteq> []" "\<forall>wr \<in> set ws. partial_write (width (heap s i)) (height (heap s i)) wr"
    "s0 = setImage (s\<lparr>gpu := gpu s @ first_calls s i\<rparr>) i
            ((heap s i)\<lparr>hasFill := False, pixels := Some p0\<rparr>)"
  shows "writes s i ws = writes s0 i ws"
proof -
  obtain a as where ws: "ws = a # as" using assms(4) by (cases ws) auto
  obtain pix x y w h where a: "a = (pix, x, y, w, h)" by (cases a)
  have pa: "in_region x y w h (width (heap s i)) (height (heap s i))"
    "length pix = nat (4 * w * h)"
    "\<not> (x = 0 \<and> y = 0 \<and> w = width (heap s i) \<and> h = height (heap s i))"
    using assms(5) unfolding ws a by auto
  have li: "int (length pix) = int64 (4 * w * h)"
    by (rule int_length_ok [OF assms(2) pa(1,2)])
  have h0: "\<not> needsToDelayCommands s0" "width (heap s0 i) = width (heap s i)"
    "height (heap s0 i) = height (heap s i)" "\<not> hasFill (heap s0 i)"
    "pixels (heap s0 i) = Some p0"
    unfolding assms(6) using assms(1) by (simp_all add: setImage_def)
  have pa0: "\<not> (x = 0 \<and> y = 0 \<and> w = width (heap s0 i) \<and> h = height (heap s0 i))"
    using pa(3) h0 by simp
  have rf: "resolvePendingFill s0 i = s0" using h0(4) by (simp add: resolvePendingFill_def)
  have "ReplacePixels s0 i pix x y w h = replacePendingPixels s0 i pix x y w h"
    unfolding ReplacePixels_partial [OF h0(1) li pa0] rf using h0(5) by simp
  then have "ReplacePixels s i pix x y w h = ReplacePixels s0 i pix x y w h"
    using materialise [OF assms(1) li pa(3) assms(3,6)] by simp
  then show ?thesis unfolding ws a by simp
qed

text \<open>
  C8. In a frame, let the partial writes \<open>ws\<close> have regions inside the image that are
  pairwise disjoint, and let \<open>p0\<close> be the buffer the first of them starts from (the
  cached buffer, or the full-size read-back). Issued in any order \<open>ws'\<close>, they all
  succeed, and the full \<open>Pixels\<close> read that follows returns one and the same buffer:
  the composite in which each written sub-rectangle holds its own buffer's bytes and
  every other byte keeps its value in \<open>p0\<close>. The resource is called only by the first
  write.
\<close>

theorem disjoint_writes_commute:
  assumes "\<not> needsToDelayCommands s" "dims_ok (heap s i)"
    "prior s i = Inr p0" "length p0 = nat (4 * width (heap s i) * height (heap s i))"
    "ws \<noteq> []" "\<forall>wr \<in> set ws. partial_write (width (heap s i)) (height (heap s i)) wr"
    "distinct ws" "\<forall>a \<in> set ws. \<forall>b \<in> set ws. a \<noteq> b \<longrightarrow> disjoint a b"
    "mset ws' = mset ws"
  shows "\<exists>q s1. writes s i ws' = (None, s1) \<and>
           Pixels s1 i 0 0 (width (heap s i)) (height (heap s i)) = (Inr q, s1) \<and>
           composite (width (heap s i)) ws p0 q \<and>
           gpu s1 = gpu s @ first_calls s i \<and>
           fst (Pixels (snd (writes s i ws)) i 0 0 (width (heap s i)) (height (heap s i))) = Inr q"
proof -
  define W where "W = width (heap s i)"
  define H where "H = height (heap s i)"
  define s0 where "s0 = setImage (s\<lparr>gpu := gpu s @ first_calls s i\<rparr>) i
            ((heap s i)\<lparr>hasFill := False, pixels := Some p0\<rparr>)"
  have h0: "\<not> needsToDelayCommands s0" "dims_ok (heap s0 i)" "\<not> hasFill (heap s0 i)"
    "pixels (heap s0 i) = Some p0" "width (heap s0 i) = W" "height (heap s0 i) = H"
    "gpu s0 = gpu s @ first_calls s i"
    unfolding s0_def using assms(1,2) by (simp_all add: setImage_def dims_ok_def W_def H_def)
  have d: "0 \<le> W" "0 \<le> H" using assms(2) unfolding dims_ok_def W_def H_def by auto
  have lp0: "length p0 = nat (4 * width (heap s0 i) * height (heap s0 i))"
    using assms(4) unfolding h0 W_def H_def .
  have run: "\<exists>q s1. writes s i us = (None, s1) \<and> Pixels s1 i 0 0 W H = (Inr q, s1) \<and>
               composite W us p0 q \<and> gpu s1 = gpu s @ first_calls s i"
    if us: "mset us = mset ws" for us
  proof -
    have su: "set us = set ws" using us by (rule mset_eq_setD)
    have du: "distinct us" using us assms(7) by (metis distinct_count_atmost_1 set_mset_mset)
    have ne: "us \<noteq> []" using us assms(5) by auto
    have pw: "\<forall>wr \<in> set us. partial_write (width (heap s i)) (height (heap s i)) wr"
      using assms(6) su by simp
    have pw0: "\<forall>wr \<in> set us. partial_write (width (heap s0 i)) (height (heap s0 i)) wr"
      using pw unfolding h0 W_def H_def .
    have dj: "\<forall>a \<in> set us. \<forall>b \<in> set us. a \<noteq> b \<longrightarrow> disjoint a b"
      using assms(8) su by simp
    obtain q where w0: "writes s0 i us =
               (None, setImage s0 i ((heap s0 i)\<lparr>pixels := Some q,
                  needsToResolvePixels := (needsToResolvePixels (heap s0 i) \<or> us \<noteq> [])\<rparr>))"
      and c: "composite W us p0 q"
      using writes_cached [OF h0(1-4) lp0 pw0 du dj] unfolding h0 by blast
    define s1 where "s1 = setImage s0 i ((heap s0 i)\<lparr>pixels := Some q,
                  needsToResolvePixels := (needsToResolvePixels (heap s0 i) \<or> us \<noteq> [])\<rparr>)"
    have h1: "\<not> needsToDelayCommands s1" "dims_ok (heap s1 i)" "\<not> hasFill (heap s1 i)"
      "pixels (heap s1 i) = Some q" "width (heap s1 i) = W" "height (heap s1 i) = H"
      "gpu s1 = gpu s @ first_calls s i"
      unfolding s1_def using h0 by (simp_all add: setImage_def dims_ok_def)
    have lq: "length q = nat (4 * W * H)"
      using c assms(4) unfolding composite_def W_def H_def by simp
    have lq1: "length q = nat (4 * width (heap s1 i) * height (heap s1 i))"
      using lq unfolding h1 .
    have reg: "in_region 0 0 W H (width (heap s1 i)) (height (heap s1 i))"
      unfolding h1 in_region_def using d by simp
    have "Pixels s1 i 0 0 W H =
            (Inr (concat (map (region_row q (width (heap s1 i)) 0 0 W) [0..H - 1])), s1)"
      by (rule Pixels_cached [OF h1(1,2,3) reg h1(4) lq1])
    then have rd: "Pixels s1 i 0 0 W H = (Inr q, s1)"
      unfolding h1 using full_rows_concat [OF d lq] by simp
    have "writes s i us = (None, s1)"
      using writes_from_prior [OF assms(1,2,3) ne pw s0_def] w0 unfolding s1_def by simp
    then show ?thesis using rd c h1(7) by blast
  qed
  obtain q s1 where 1: "writes s i ws' = (None, s1)" "Pixels s1 i 0 0 W H = (Inr q, s1)"
    "composite W ws' p0 q" "gpu s1 = gpu s @ first_calls s i"
    using run [OF assms(9)] by blast
  obtain q2 s2 where 2: "writes s i ws = (None, s2)" "Pixels s2 i 0 0 W H = (Inr q2, s2)"
    "composite W ws p0 q2"
    using run [OF refl] by blast
  have se: "set ws' = set ws" using assms(9) by (rule mset_eq_setD)
  have "q = q2" by (rule composite_unique [OF 2(3) 1(3) se])
  moreover have "composite W ws p0 q"
    using 1(3) se unfolding composite_def by simp
  ultimately show ?thesis using 1 2 unfolding W_def H_def by auto
qed

theorem disjoint_writes_commute_witness:
  "fst (Pixels (snd (writes frame4 0 [(replicate 8 3, 2, 1, 2, 1), (replicate 8 2, 0, 0, 2, 1)])) 0 0 0 4 4) =
   fst (Pixels (snd (writes frame4 0 [(replicate 8 2, 0, 0, 2, 1), (replicate 8 3, 2, 1, 2, 1)])) 0 0 0 4 4) \<and>
   fst (writes frame4 0 [(replicate 8 3, 2, 1, 2, 1), (replicate 8 2, 0, 0, 2, 1)]) = None \<and>
   gpu (snd (writes frame4 0 [(replicate 8 3, 2, 1, 2, 1), (replicate 8 2, 0, 0, 2, 1)])) =
     gpu frame4 @ [MM_Pixels (Some 1) 0 0 4 4] \<and>
   \<not> needsToDelayCommands frame4 \<and> dims_ok (heap frame4 0) \<and>
   prior frame4 0 = Inr (replicate 64 0) \<and>
   partial_write (width (heap frame4 0)) (height (heap frame4 0)) (replicate 8 2, 0, 0, 2, 1) \<and>
   partial_write (width (heap frame4 0)) (height (heap frame4 0)) (replicate 8 3, 2, 1, 2, 1) \<and>
   disjoint (replicate 8 2, 0, 0, 2, 1) (replicate 8 3, 2, 1, 2, 1)"
proof -
  define ws :: "region_write list" where
    "ws = [(replicate 8 2, 0, 0, 2, 1), (replicate 8 3, 2, 1, 2, 1)]"
  define ws' :: "region_write list" where
    "ws' = [(replicate 8 3, 2, 1, 2, 1), (replicate 8 2, 0, 0, 2, 1)]"
  have pr: "prior frame4 0 = Inr (replicate 64 0)"
    by (simp add: prior_def first_calls_def frame4_eq zeroImage_def)
  have fc: "first_calls frame4 0 = [MM_Pixels (Some 1) 0 0 4 4]"
    by (simp add: first_calls_def frame4_eq zeroImage_def)
  have l: "length (replicate 64 (0 :: byte)) = nat (4 * width (heap frame4 0) * height (heap frame4 0))"
    by (simp add: frame4_facts)
  have ne: "ws \<noteq> []" by (simp add: ws_def)
  have pw: "\<forall>wr \<in> set ws. partial_write (width (heap frame4 0)) (height (heap frame4 0)) wr"
    by (simp add: ws_def frame4_facts in_region_def)
  have di: "distinct ws" by (simp add: ws_def)
  have dj: "\<forall>a \<in> set ws. \<forall>b \<in> set ws. a \<noteq> b \<longrightarrow> disjoint a b"
    by (simp add: ws_def)
  have ms: "mset ws' = mset ws" by (simp add: ws_def ws'_def)
  obtain q s1 where r: "writes frame4 0 ws' = (None, s1)"
    "Pixels s1 0 0 0 (width (heap frame4 0)) (height (heap frame4 0)) = (Inr q, s1)"
    "gpu s1 = gpu frame4 @ first_calls frame4 0"
    "fst (Pixels (snd (writes frame4 0 ws)) 0 0 0 (width (heap frame4 0)) (height (heap frame4 0))) = Inr q"
    using disjoint_writes_commute [OF frame4_facts(1,2) pr l ne pw di dj ms] by blast
  show ?thesis
    using r pr pw fc frame4_facts(1,2)
    unfolding ws_def [symmetric] ws'_def [symmetric] frame4_facts(4,5)
    by (simp add: ws_def)
qed

subsection \<open>Copying an image onto itself\<close>

lemma writes_single: "writes s i [(pix, x, y, w, h)] = ReplacePixels s i pix x y w h"
  by (auto split: prod.splits option.splits)

lemma length_prior:
  assumes "buffer_ok s i" "resource_ok s i" "prior s i = Inr p0"
  shows "length p0 = nat (4 * width (heap s i) * height (heap s i))"
proof (cases "pixels (heap s i)")
  case (Some p)
  then show ?thesis using assms(1,3) by (simp add: buffer_ok_def prior_def)
next
  case None
  define c where "c = MM_Pixels (img (heap s i)) 0 0 (width (heap s i)) (height (heap s i))"
  define tr where
    "tr = gpu s @ (if hasFill (heap s i) then [MM_Fill (img (heap s i)) (fillColor (heap s i))] else [])"
  have "gpu s @ first_calls s i = tr @ [c]"
    using None by (simp add: first_calls_def tr_def c_def)
  then have "mmPixels s (tr @ [c]) = Inr p0" using assms(3) None by (simp add: prior_def)
  then show ?thesis using assms(2) unfolding resource_ok_def c_def by blast
qed

lemma CopyPixels_partial:
  assumes "dims_ok (heap s i)" "in_region x y w h (width (heap s i)) (height (heap s i))"
    "buffer_ok s i" "resource_ok s i"
    "Pixels s i x y w h = (Inr buf, s1)"
    "\<not> (w = width (heap s i) \<and> h = height (heap s i))" "prior s1 i = Inr p0"
  shows "\<exists>q. CopyPixels s i i x y w h =
               (None, setImage (s1\<lparr>gpu := gpu s1 @ first_calls s1 i\<rparr>) i
                        ((heap s1 i)\<lparr>hasFill := False, pixels := Some q,
                                      needsToResolvePixels := True\<rparr>)) \<and>
             composite (width (heap s i)) [(buf, 0, 0, w, h)] p0 q"
proof -
  have nd: "\<not> needsToDelayCommands s"
    using assms(5) by (auto simp: Pixels_def checkDelayedCommandsFlushed_def split: if_splits)
  note P = Pixels_no_panic [OF nd assms(1-5), of "[]"]
  have lb: "length buf = nat (4 * w * h)" and nd1: "\<not> needsToDelayCommands s1"
    and d1: "dims_ok (heap s1 i)" and w1: "width (heap s1 i) = width (heap s i)"
    and h1: "height (heap s1 i) = height (heap s i)" and b1: "buffer_ok s1 i"
    and r1: "resource_ok s1 i"
    using P by auto
  have lp0: "length p0 = nat (4 * width (heap s1 i) * height (heap s1 i))"
    by (rule length_prior [OF b1 r1 assms(7)])
  define a where "a = (buf, 0 :: int, 0 :: int, w, h)"
  have pw: "partial_write (width (heap s1 i)) (height (heap s1 i)) a"
    using assms(2,6) lb unfolding a_def w1 h1 by (auto simp: in_region_def)
  define s0 where
    "s0 = setImage (s1\<lparr>gpu := gpu s1 @ first_calls s1 i\<rparr>) i
            ((heap s1 i)\<lparr>hasFill := False, pixels := Some p0\<rparr>)"
  have e: "writes s1 i [a] = writes s0 i [a]"
    by (rule writes_from_prior [OF nd1 d1 assms(7) _ _ s0_def]) (use pw in simp_all)
  have h0: "\<not> needsToDelayCommands s0" "dims_ok (heap s0 i)" "\<not> hasFill (heap s0 i)"
    "pixels (heap s0 i) = Some p0" "width (heap s0 i) = width (heap s1 i)"
    "height (heap s0 i) = height (heap s1 i)"
    unfolding s0_def using nd1 d1 by (simp_all add: setImage_def dims_ok_def)
  have lp0': "length p0 = nat (4 * width (heap s0 i) * height (heap s0 i))"
    using lp0 h0(5,6) by simp
  have pw0: "\<forall>wr \<in> set [a]. partial_write (width (heap s0 i)) (height (heap s0 i)) wr"
    using pw h0(5,6) by simp
  obtain q where q: "writes s0 i [a] =
      (None, setImage s0 i ((heap s0 i)\<lparr>pixels := Some q,
         needsToResolvePixels := (needsToResolvePixels (heap s0 i) \<or> [a] \<noteq> [])\<rparr>))"
    and c: "composite (width (heap s0 i)) [a] p0 q"
    using writes_cached [OF h0(1,2,3,4) lp0' pw0] by auto
  have st: "setImage s0 i ((heap s0 i)\<lparr>pixels := Some q,
              needsToResolvePixels := (needsToResolvePixels (heap s0 i) \<or> [a] \<noteq> [])\<rparr>) =
            setImage (s1\<lparr>gpu := gpu s1 @ first_calls s1 i\<rparr>) i
              ((heap s1 i)\<lparr>hasFill := False, pixels := Some q, needsToResolvePixels := True\<rparr>)"
    unfolding s0_def by (simp add: setImage_def)
  have "ReplacePixels s1 i buf 0 0 w h =
          (None, setImage (s1\<lparr>gpu := gpu s1 @ first_calls s1 i\<rparr>) i
             ((heap s1 i)\<lparr>hasFill := False, pixels := Some q, needsToResolvePixels := True\<rparr>))"
    using e q st unfolding a_def writes_single by simp
  then have "CopyPixels s i i x y w h =
          (None, setImage (s1\<lparr>gpu := gpu s1 @ first_calls s1 i\<rparr>) i
             ((heap s1 i)\<lparr>hasFill := False, pixels := Some q, needsToResolvePixels := True\<rparr>))"
    using nd assms(5) by (simp add: CopyPixels_def tryAddDelayedCommand_def)
  moreover have "composite (width (heap s i)) [(buf, 0, 0, w, h)] p0 q"
    using c unfolding a_def h0(5) w1 .
  ultimately show ?thesis by blast
qed

lemma CopyPixels_full:
  assumes "dims_ok (heap s i)" "in_region x y w h (width (heap s i)) (height (heap s i))"
    "buffer_ok s i" "resource_ok s i"
    "Pixels s i x y w h = (Inr buf, s1)"
    "w = width (heap s i) \<and> h = height (heap s i)"
  shows "CopyPixels s i i x y w h =
           (None, setImage s1 i ((heap s1 i)\<lparr>hasFill := False, pixels := Some buf,
                                              needsToResolvePixels := True\<rparr>))"
proof -
  have nd: "\<not> needsToDelayCommands s"
    using assms(5) by (auto simp: Pixels_def checkDelayedCommandsFlushed_def split: if_splits)
  note P = Pixels_no_panic [OF nd assms(1-5), of "[]"]
  have nd1: "\<not> needsToDelayCommands s1"
    and w1: "width (heap s1 i) = width (heap s i)"
    and h1: "height (heap s1 i) = height (heap s i)"
    using P by auto
  have l: "int (length buf) = int64 (4 * width (heap s1 i) * height (heap s1 i))"
    using Pixels_length [OF assms(5)] assms(6) w1 h1 by simp
  have "ReplacePixels s1 i buf 0 0 w h =
          (None, setImage s1 i ((heap s1 i)\<lparr>hasFill := False, pixels := Some buf,
                                             needsToResolvePixels := True\<rparr>))"
    using ReplacePixels_full [OF nd1 l] assms(6) w1 h1 by simp
  then show ?thesis using nd assms(5) by (simp add: CopyPixels_def tryAddDelayedCommand_def)
qed

lemma frame4_read:
  "Pixels frame4 0 1 1 2 2 =
     (Inr (replicate 16 0),
      setImage (call frame4 (MM_Pixels (Some 1) 0 0 4 4)) 0
        ((heap frame4 0)\<lparr>pixels := Some (replicate 64 0)\<rparr>))"
  by (simp add: frame4_eq Pixels_def checkDelayedCommandsFlushed_def
      In_def Rect_def Empty_def int64_def make_bytes_def maxAlloc_def heapAddrBits_def
      call_def setImage_def zeroImage_def Pixels_rows.simps slice_bounds_def slice_from_def
      copy_to_def Let_def replicate_add [symmetric])

lemma frame4_read_prior:
  "prior (setImage (call frame4 (MM_Pixels (Some 1) 0 0 4 4)) 0
            ((heap frame4 0)\<lparr>pixels := Some (replicate 64 0)\<rparr>)) 0 = Inr (replicate 64 0)"
  by (simp add: prior_def setImage_def)

text \<open>
  C10 (amended). \<open>CopyPixels\<close> compares no pointers: copying a region inside an image
  onto the image itself never panics (the image being well sized, and the resource
  answering a read-back with a full-size buffer or an error). Before the first frame the
  call is queued. In a frame it reads the region with \<open>Pixels\<close>; when that returns
  the bytes \<open>buf\<close>, there are \<open>4 * w * h\<close> of them and they are written at the
  origin with the size of the region. When that is the size of the image, the write is the
  full-region one: \<open>buf\<close> becomes the pending buffer and the resource is not called.
  Otherwise it is the partial one: the pending buffer becomes the buffer \<open>p0\<close> the
  write starts from, with \<open>buf\<close> in the sub-rectangle at the origin and every other
  byte as in \<open>p0\<close>; or, when the read-back that write needs fails, its error is
  returned. An error of the read is returned as it is.
\<close>

theorem CopyPixels_onto_itself:
  assumes "dims_ok (heap s i)" "in_region x y w h (width (heap s i)) (height (heap s i))"
    "buffer_ok s i" "resource_ok s i"
  shows "fst (CopyPixels s i i x y w h) \<noteq> Some (Panic m) \<and>
         (needsToDelayCommands s \<longrightarrow>
            CopyPixels s i i x y w h =
              (None, s\<lparr>delayedCommands := delayedCommands s @ [C_CopyPixels i i x y w h]\<rparr>)) \<and>
         (Pixels s i x y w h = (Inr buf, s1) \<longrightarrow>
            length buf = nat (4 * w * h) \<and>
            (w = width (heap s i) \<and> h = height (heap s i) \<longrightarrow>
               CopyPixels s i i x y w h =
                 (None, setImage s1 i ((heap s1 i)\<lparr>hasFill := False, pixels := Some buf,
                                                    needsToResolvePixels := True\<rparr>))) \<and>
            (\<not> (w = width (heap s i) \<and> h = height (heap s i)) \<and> prior s1 i = Inr p0 \<longrightarrow>
               (\<exists>q. CopyPixels s i i x y w h =
                       (None, setImage (s1\<lparr>gpu := gpu s1 @ first_calls s1 i\<rparr>) i
                                ((heap s1 i)\<lparr>hasFill := False, pixels := Some q,
                                              needsToResolvePixels := True\<rparr>)) \<and>
                     composite (width (heap s i)) [(buf, 0, 0, w, h)] p0 q)) \<and>
            (\<not> (w = width (heap s i) \<and> h = height (heap s i)) \<and> prior s1 i = Inl e \<longrightarrow>
               CopyPixels s i i x y w h =
                 (Some (Err e),
                  setImage (s1\<lparr>gpu := gpu s1 @ first_calls s1 i\<rparr>) i
                    ((heap s1 i)\<lparr>hasFill := False\<rparr>)))) \<and>
         (\<not> needsToDelayCommands s \<and> Pixels s i x y w h = (Inl f, s1) \<longrightarrow>
            CopyPixels s i i x y w h = (Some f, s1))"
proof (intro conjI impI)
  show "fst (CopyPixels s i i x y w h) \<noteq> Some (Panic m)"
  proof (cases "needsToDelayCommands s")
    case True
    then show ?thesis by (simp add: CopyPixels_def tryAddDelayedCommand_def)
  next
    case False
    have eq: "CopyPixels s i i x y w h =
                (case Pixels s i x y w h of
                   (Inl e, s1) \<Rightarrow> (Some e, s1)
                 | (Inr pix, s1) \<Rightarrow> ReplacePixels s1 i pix 0 0 w h)"
      using False by (simp add: CopyPixels_def tryAddDelayedCommand_def)
    obtain r t where p: "Pixels s i x y w h = (r, t)" by (cases "Pixels s i x y w h")
    note P = Pixels_no_panic [OF False assms p, of m]
    show ?thesis
    proof (cases r)
      case (Inl e)
      then show ?thesis using P p unfolding eq by auto
    next
      case (Inr pix)
      have reg: "in_region 0 0 w h (width (heap t i)) (height (heap t i))"
        using assms(2) P unfolding in_region_def by auto
      have "fst (ReplacePixels t i pix 0 0 w h) \<noteq> Some (Panic m)"
        by (rule ReplacePixels_no_panic [OF _ _ reg]) (use P Inr in auto)
      then show ?thesis using p Inr unfolding eq by simp
    qed
  qed
next
  assume "needsToDelayCommands s"
  then show "CopyPixels s i i x y w h =
               (None, s\<lparr>delayedCommands := delayedCommands s @ [C_CopyPixels i i x y w h]\<rparr>)"
    by (simp add: CopyPixels_def tryAddDelayedCommand_def)
next
  assume p: "Pixels s i x y w h = (Inr buf, s1)"
  have nd: "\<not> needsToDelayCommands s"
    using p by (auto simp: Pixels_def checkDelayedCommandsFlushed_def split: if_splits)
  show "length buf = nat (4 * w * h)"
    using Pixels_no_panic [OF nd assms p, of "[]"] by simp
next
  assume "Pixels s i x y w h = (Inr buf, s1)" "w = width (heap s i) \<and> h = height (heap s i)"
  then show "CopyPixels s i i x y w h =
               (None, setImage s1 i ((heap s1 i)\<lparr>hasFill := False, pixels := Some buf,
                                                  needsToResolvePixels := True\<rparr>))"
    by (rule CopyPixels_full [OF assms])
next
  assume p: "Pixels s i x y w h = (Inr buf, s1)"
    and "\<not> (w = width (heap s i) \<and> h = height (heap s i)) \<and> prior s1 i = Inr p0"
  then show "\<exists>q. CopyPixels s i i x y w h =
                   (None, setImage (s1\<lparr>gpu := gpu s1 @ first_calls s1 i\<rparr>) i
                            ((heap s1 i)\<lparr>hasFill := False, pixels := Some q,
                                          needsToResolvePixels := True\<rparr>)) \<and>
                 composite (width (heap s i)) [(buf, 0, 0, w, h)] p0 q"
    by (intro CopyPixels_partial [OF assms p]) simp_all
next
  assume p: "Pixels s i x y w h = (Inr buf, s1)"
    and a: "\<not> (w = width (heap s i) \<and> h = height (heap s i)) \<and> prior s1 i = Inl e"
  have nd: "\<not> needsToDelayCommands s"
    using p by (auto simp: Pixels_def checkDelayedCommandsFlushed_def split: if_splits)
  have "width (heap s1 i) = width (heap s i)" "height (heap s1 i) = height (heap s i)"
    using Pixels_no_panic [OF nd assms p, of "[]"] by simp_all
  then have "\<not> (w = width (heap s1 i) \<and> h = height (heap s1 i))" using a by simp
  then show "CopyPixels s i i x y w h =
               (Some (Err e),
                setImage (s1\<lparr>gpu := gpu s1 @ first_calls s1 i\<rparr>) i
                  ((heap s1 i)\<lparr>hasFill := False\<rparr>))"
    using a by (intro CopyPixels_readback_fails [OF p]) simp_all
next
  assume "\<not> needsToDelayCommands s \<and> Pixels s i x y w h = (Inl f, s1)"
  then show "CopyPixels s i i x y w h = (Some f, s1)"
    by (simp add: CopyPixels_def tryAddDelayedCommand_def)
qed

theorem CopyPixels_onto_itself_witness:
  "fst (CopyPixels frame4 0 0 1 1 2 2) \<noteq> Some (Panic ''slice bounds out of range'') \<and>
   fst (Pixels frame4 0 1 1 2 2) = Inr (replicate 16 0) \<and>
   prior (snd (Pixels frame4 0 1 1 2 2)) 0 = Inr (replicate 64 0) \<and>
   (\<exists>q. fst (CopyPixels frame4 0 0 1 1 2 2) = None \<and>
        pixels (heap (snd (CopyPixels frame4 0 0 1 1 2 2)) 0) = Some q \<and>
        needsToResolvePixels (heap (snd (CopyPixels frame4 0 0 1 1 2 2)) 0) \<and>
        composite 4 [(replicate 16 0, 0, 0, 2, 2)] (replicate 64 0) q) \<and>
   dims_ok (heap frame4 0) \<and> in_region 1 1 2 2 (width (heap frame4 0)) (height (heap frame4 0)) \<and>
   buffer_ok frame4 0 \<and> resource_ok frame4 0"
proof -
  have h: "dims_ok (heap frame4 0)"
    "in_region 1 1 2 2 (width (heap frame4 0)) (height (heap frame4 0))"
    "buffer_ok frame4 0" "resource_ok frame4 0"
    by (simp_all add: frame4_facts in_region_def)
       (simp_all add: frame4_eq buffer_ok_def resource_ok_def zeroImage_def)
  define s1 where
    "s1 = setImage (call frame4 (MM_Pixels (Some 1) 0 0 4 4)) 0
            ((heap frame4 0)\<lparr>pixels := Some (replicate 64 0)\<rparr>)"
  have p: "Pixels frame4 0 1 1 2 2 = (Inr (replicate 16 0), s1)"
    unfolding s1_def by (rule frame4_read)
  have pr: "prior s1 0 = Inr (replicate 64 0)"
    unfolding s1_def by (rule frame4_read_prior)
  note T = CopyPixels_onto_itself
    [OF h, where m = "''slice bounds out of range''" and buf = "replicate 16 0" and ?s1.0 = s1
       and ?p0.0 = "replicate 64 0"]
  have 1: "fst (CopyPixels frame4 0 0 1 1 2 2) \<noteq> Some (Panic ''slice bounds out of range'')"
    using T by (rule conjunct1)
  have part: "\<not> ((2::int) = width (heap frame4 0) \<and> (2::int) = height (heap frame4 0)) \<and>
              prior s1 0 = Inr (replicate 64 0)"
    using pr by (simp add: frame4_facts)
  obtain q where q: "CopyPixels frame4 0 0 1 1 2 2 =
        (None, setImage (s1\<lparr>gpu := gpu s1 @ first_calls s1 0\<rparr>) 0
                 ((heap s1 0)\<lparr>hasFill := False, pixels := Some q, needsToResolvePixels := True\<rparr>))"
    and c: "composite (width (heap frame4 0)) [(replicate 16 0, 0, 0, 2, 2)] (replicate 64 0) q"
    using T [THEN conjunct2, THEN conjunct2, THEN conjunct1, THEN mp, OF p, THEN conjunct2,
             THEN conjunct2, THEN conjunct1, THEN mp, OF part]
    by blast
  have 2: "\<exists>q. fst (CopyPixels frame4 0 0 1 1 2 2) = None \<and>
        pixels (heap (snd (CopyPixels frame4 0 0 1 1 2 2)) 0) = Some q \<and>
        needsToResolvePixels (heap (snd (CopyPixels frame4 0 0 1 1 2 2)) 0) \<and>
        composite 4 [(replicate 16 0, 0, 0, 2, 2)] (replicate 64 0) q"
    using c unfolding q frame4_facts(4) by (intro exI [of _ q]) (simp add: setImage_def)
  have 3: "fst (Pixels frame4 0 1 1 2 2) = Inr (replicate 16 0)"
    "prior (snd (Pixels frame4 0 1 1 2 2)) 0 = Inr (replicate 64 0)"
    using pr unfolding p by simp_all
  show ?thesis using 1 2 3 h by blast
qed

text \<open>
  C10 (as stated) fails in its last part: copying the 2 by 2 region at (1, 1) of a 4 by 4
  image onto the image writes the 16 bytes read at the origin by the partial path. The
  region written is not the full region of the image, and the buffer left pending is the
  64-byte image buffer, not the 16 bytes read.
\<close>

theorem CopyPixels_region_counterexample:
  "fst (Pixels frame4 0 1 1 2 2) = Inr (replicate 16 0) \<and>
   fst (CopyPixels frame4 0 0 1 1 2 2) = None \<and>
   map_option length (pixels (heap (snd (CopyPixels frame4 0 0 1 1 2 2)) 0)) = Some 64 \<and>
   (width (heap frame4 0), height (heap frame4 0)) = (4, 4)"
  by (simp add: frame4_eq CopyPixels_def Pixels_def ReplacePixels_def replacePendingPixels_def
      resolvePendingFill_def checkDelayedCommandsFlushed_def tryAddDelayedCommand_def
      In_def Rect_def Empty_def int64_def make_bytes_def maxAlloc_def heapAddrBits_def call_def setImage_def zeroImage_def
      Pixels_rows.simps replacePendingPixels_rows.simps slice_bounds_def slice_from_def
      copy_to_def Let_def replicate_add [symmetric])

end
